theory Spec2Isabelle
  imports Main "HOL-Library.Word"
begin

unbundle bit_operations_syntax

section \<open>Identity codec\<close>

text \<open>
  \<^verbatim>\<open>sdbm\<close> folds \<open>len\<close> bytes into a \<^verbatim>\<open>uint64_t\<close>; every operation wraps
  modulo \<open>2 ^ 64\<close>, which is the arithmetic of \<^typ>\<open>64 word\<close>.
\<close>

definition sdbm :: "8 word list \<Rightarrow> nat \<Rightarrow> 64 word" where
  "sdbm str len =
     foldl (\<lambda>hash c. ucast c + push_bit 6 hash + push_bit 16 hash - hash) 0 (take len str)"

definition MAKE_FID :: "8 word list \<Rightarrow> 64 word" where
  "MAKE_FID x = sdbm x 16"

text \<open>
  Modelled from the spec: \<^verbatim>\<open>struct client\<close>, whose declaration is in a header that is not
  part of this file. The two fields the macros read are the numeric client id (an
  address, 32 bits) and the port (16 bits), as the specification's SourceIdentity types
  them.
\<close>

record client =
  cl_id :: "32 word"
  cl_port :: "16 word"

definition MAKE_SID :: "client \<Rightarrow> 64 word" where
  "MAKE_SID x = push_bit 32 (ucast (cl_id x) :: 64 word) OR (ucast (cl_port x) :: 64 word)"

definition GET_SID_ID :: "64 word \<Rightarrow> 32 word" where
  "GET_SID_ID sid = ucast (drop_bit 32 sid)"

definition GET_SID_PORT :: "64 word \<Rightarrow> 16 word" where
  "GET_SID_PORT sid = ucast sid"

section \<open>Catalog store\<close>

subsection \<open>Tables\<close>

text \<open>
  The three tables of the init script. SQLite \<^verbatim>\<open>INTEGER\<close> columns hold signed 64-bit
  values; the counters are modelled as \<^typ>\<open>int\<close>: a counter moves by one per source
  row (by a 32-bit rating for the rating sum), so it stays far inside 64 bits for any
  table that fits in memory. The keys \<^verbatim>\<open>fid\<close> and \<^verbatim>\<open>sid\<close> are kept as the 64-bit
  patterns the code binds and reads back. A nullable \<^verbatim>\<open>TEXT\<close> column is an
  \<^typ>\<open>string option\<close>. A table is the list of its rows in the order of their insertion.
\<close>

record file_row =
  f_fid :: "64 word"
  f_hash :: "8 word list"
  f_name :: string
  f_ext :: "string option"
  f_size :: int
  f_type :: int
  f_srcavail :: int
  f_srccomplete :: int
  f_rating :: int
  f_rated_count :: int
  f_mlength :: int
  f_mbitrate :: int
  f_mcodec :: "string option"

record source_row =
  s_fid :: "64 word"
  s_sid :: "64 word"
  s_complete :: int
  s_rating :: int

text \<open>
  The connection: the tables, the full-text index \<^verbatim>\<open>fnames\<close> (document id and indexed
  name), the counter read by \<^verbatim>\<open>sqlite3_changes\<close>, and the verdicts the storage engine
  will give to the coming statement executions (\<open>False\<close>: the call returns an
  error code; an exhausted list: every later call succeeds). The engine is a library
  outside this file, so whether a call fails is an input of the model.
\<close>

record db =
  files :: "file_row list"
  fnames :: "(64 word \<times> string) list"
  sources :: "source_row list"
  changes :: nat
  rc_script :: "bool list"

subsection \<open>Triggers of the init script\<close>

text \<open>
  \<^verbatim>\<open>DELETE FROM files WHERE fid=k\<close> with its trigger \<^verbatim>\<open>files_fts3\<close> (before delete:
  remove the document from \<^verbatim>\<open>fnames\<close>).
\<close>

definition files_fts3 :: "file_row \<Rightarrow> db \<Rightarrow> db" where
  "files_fts3 old d = d\<lparr>fnames := filter (\<lambda>n. fst n \<noteq> f_fid old) (fnames d)\<rparr>"

definition delete_files :: "64 word \<Rightarrow> db \<Rightarrow> db" where
  "delete_files k d =
     (let d1 = fold files_fts3 (filter (\<lambda>r. f_fid r = k) (files d)) d
      in d1\<lparr>files := filter (\<lambda>r. f_fid r \<noteq> k) (files d1)\<rparr>)"

definition files_au :: "file_row \<Rightarrow> db \<Rightarrow> db" where
  "files_au new d = (if f_srcavail new = 0 then delete_files (f_fid new) d else d)"

definition files_fts1 :: "file_row \<Rightarrow> file_row \<Rightarrow> db \<Rightarrow> db" where
  "files_fts1 old new d =
     (if f_name new \<noteq> f_name old
      then d\<lparr>fnames := filter (\<lambda>n. fst n \<noteq> f_fid old) (fnames d)\<rparr> else d)"

definition files_fts2 :: "file_row \<Rightarrow> file_row \<Rightarrow> db \<Rightarrow> db" where
  "files_fts2 old new d =
     (if f_name new \<noteq> f_name old
      then d\<lparr>fnames := fnames d @ [(f_fid new, f_name new)]\<rparr> else d)"

definition files_fts4 :: "file_row \<Rightarrow> db \<Rightarrow> db" where
  "files_fts4 new d = d\<lparr>fnames := fnames d @ [(f_fid new, f_name new)]\<rparr>"

text \<open>
  \<^verbatim>\<open>UPDATE files SET ... WHERE fid=k\<close>: \<open>g\<close> is the \<^verbatim>\<open>SET\<close> clause. \<^verbatim>\<open>fid\<close> is the
  primary key, so at most one row is found. Before the change of the row fires
  \<^verbatim>\<open>files_fts1\<close>; after it fire the two after-update triggers, in the order in which the
  engine runs them: the one created last first, so \<^verbatim>\<open>files_fts2\<close> and then \<^verbatim>\<open>files_au\<close>.
  The result carries the number of rows the statement itself changed.
\<close>

definition update_files :: "64 word \<Rightarrow> (file_row \<Rightarrow> file_row) \<Rightarrow> db \<Rightarrow> nat \<times> db" where
  "update_files k g d =
     (case find (\<lambda>r. f_fid r = k) (files d) of
        None \<Rightarrow> (0, d)
      | Some old \<Rightarrow>
          (let new = g old;
               d1 = files_fts1 old new d;
               d2 = d1\<lparr>files := map (\<lambda>r. if f_fid r = k then new else r) (files d1)\<rparr>;
               d3 = files_fts2 old new d2;
               d4 = files_au new d3
           in (1, d4)))"

text \<open>
  \<^verbatim>\<open>INSERT OR REPLACE INTO files\<close>: a row with the same key is replaced; then
  \<^verbatim>\<open>files_fts4\<close> (after insert) indexes the name.
\<close>

definition insert_files :: "file_row \<Rightarrow> db \<Rightarrow> db" where
  "insert_files new d =
     files_fts4 new (d\<lparr>files := filter (\<lambda>r. f_fid r \<noteq> f_fid new) (files d) @ [new]\<rparr>)"

text \<open>The two aggregate triggers on \<^verbatim>\<open>sources\<close>, each an \<^verbatim>\<open>UPDATE files\<close>.\<close>

definition sources_ai :: "source_row \<Rightarrow> db \<Rightarrow> db" where
  "sources_ai new d =
     snd (update_files (s_fid new)
       (\<lambda>f. f\<lparr>f_srcavail := f_srcavail f + 1,
              f_srccomplete := f_srccomplete f + s_complete new,
              f_rating := f_rating f + s_rating new,
              f_rated_count := (if s_rating new \<noteq> 0 then f_rated_count f + 1 else 0)\<rparr>) d)"

definition sources_bd :: "source_row \<Rightarrow> db \<Rightarrow> db" where
  "sources_bd old d =
     snd (update_files (s_fid old)
       (\<lambda>f. f\<lparr>f_srcavail := f_srcavail f - 1,
              f_srccomplete := f_srccomplete f - s_complete old,
              f_rating := f_rating f - s_rating old,
              f_rated_count :=
                (if s_rating old \<noteq> 0 then f_rated_count f - 1 else f_rated_count f)\<rparr>) d)"

definition insert_sources :: "source_row \<Rightarrow> db \<Rightarrow> db" where
  "insert_sources new d = sources_ai new (d\<lparr>sources := sources d @ [new]\<rparr>)"

text \<open>
  \<^verbatim>\<open>DELETE FROM sources WHERE sid=k\<close>: for each matching row, the before-delete trigger
  runs and then the row goes.
\<close>

definition delete_sources_row :: "source_row \<Rightarrow> db \<Rightarrow> db" where
  "delete_sources_row old d =
     (let d1 = sources_bd old d in d1\<lparr>sources := remove1 old (sources d1)\<rparr>)"

definition delete_sources :: "64 word \<Rightarrow> db \<Rightarrow> db" where
  "delete_sources k d =
     fold delete_sources_row (filter (\<lambda>s. s_sid s = k) (sources d)) d"

subsection \<open>Statement execution\<close>

text \<open>
  One execution of a prepared statement (\<^verbatim>\<open>sqlite3_reset\<close>, the binds,
  \<^verbatim>\<open>sqlite3_step\<close>), each under \<^verbatim>\<open>DB_CHECK\<close>: the engine's next verdict decides
  whether the statement runs or the code jumps to \<^verbatim>\<open>failed\<close>. A statement the
  engine fails is taken to change no table.
\<close>

definition exec_stmt :: "(db \<Rightarrow> db) \<Rightarrow> db \<Rightarrow> bool \<times> db" where
  "exec_stmt run d =
     (case rc_script d of
        [] \<Rightarrow> (True, run d)
      | b # bs \<Rightarrow>
          if b then (True, run (d\<lparr>rc_script := bs\<rparr>)) else (False, d\<lparr>rc_script := bs\<rparr>))"

text \<open>
  \<^verbatim>\<open>db_create\<close>: the init script creates the schema and empties the three tables;
  \<open>None\<close> is the return value 0.
\<close>

definition db_create :: "bool list \<Rightarrow> db option" where
  "db_create script =
     (case script of
        False # bs \<Rightarrow> None
      | _ \<Rightarrow> Some \<lparr>files = [], fnames = [], sources = [], changes = 0,
                   rc_script = tl script\<rparr>)"

subsection \<open>Sharing and removing\<close>

text \<open>
  Modelled from the spec: \<^verbatim>\<open>struct pub_file\<close>, whose declaration is in a header that is
  not part of this file. The fields are the ones the code reads, typed as the
  specification's FileAnnouncement.
\<close>

record pub_file =
  pf_hash :: "8 word list"
  pf_name_len :: nat
  pf_name :: string
  pf_size :: "64 word"
  pf_type :: "8 word"
  pf_media_length :: "32 word"
  pf_media_bitrate :: "32 word"
  pf_media_codec_len :: nat
  pf_media_codec :: string
  pf_complete :: bool
  pf_rating :: "32 word"

text \<open>
  The helpers and limits this file uses and does not define are parameters:
  \<^verbatim>\<open>file_extension\<close> returns a pointer into the name (here the offset) or \<^verbatim>\<open>NULL\<close>,
  \<^verbatim>\<open>get_ed2k_file_type\<close> maps an extension to a type code, \<^verbatim>\<open>fts_match\<close> stands
  for the full-text engine (\<open>None\<close> when it rejects the expression), and the two limits
  are the ones named in the code.
\<close>

record collab =
  file_extension :: "string \<Rightarrow> nat \<Rightarrow> nat option"
  get_ed2k_file_type :: "string \<Rightarrow> nat \<Rightarrow> 8 word"
  fts_match :: "string \<Rightarrow> (string \<Rightarrow> bool) option"
  MAX_FILENAME_LEN :: nat
  MAX_FILEEXT_LEN :: nat

definition bind_text :: "string \<Rightarrow> nat \<Rightarrow> string" where
  "bind_text s n = take n s"

definition pub_ext :: "collab \<Rightarrow> pub_file \<Rightarrow> string option" where
  "pub_ext e f =
     (case file_extension e (pf_name f) (pf_name_len f) of
        None \<Rightarrow> None
      | Some off \<Rightarrow> Some (bind_text (drop off (pf_name f)) (pf_name_len f - off)))"

definition share_upd :: "collab \<Rightarrow> pub_file \<Rightarrow> db \<Rightarrow> db" where
  "share_upd e f d =
     (let (n, d') = update_files (MAKE_FID (pf_hash f))
        (\<lambda>r. r\<lparr>f_name := bind_text (pf_name f) (pf_name_len f),
               f_ext := pub_ext e f,
               f_size := sint (pf_size f),
               f_type := uint (pf_type f),
               f_mlength := sint (pf_media_length f),
               f_mbitrate := sint (pf_media_bitrate f),
               f_mcodec := Some (bind_text (pf_media_codec f) (pf_media_codec_len f))\<rparr>) d
      in d'\<lparr>changes := n\<rparr>)"

definition share_ins :: "collab \<Rightarrow> pub_file \<Rightarrow> db \<Rightarrow> db" where
  "share_ins e f d =
     (insert_files
        \<lparr>f_fid = MAKE_FID (pf_hash f), f_hash = pf_hash f,
         f_name = bind_text (pf_name f) (pf_name_len f),
         f_ext = pub_ext e f,
         f_size = sint (pf_size f),
         f_type = uint (pf_type f),
         f_srcavail = 0, f_srccomplete = 0, f_rating = 0, f_rated_count = 0,
         f_mlength = sint (pf_media_length f),
         f_mbitrate = sint (pf_media_bitrate f),
         f_mcodec = Some (bind_text (pf_media_codec f) (pf_media_codec_len f))\<rparr> d)
       \<lparr>changes := 1\<rparr>"

definition share_src :: "pub_file \<Rightarrow> client \<Rightarrow> db \<Rightarrow> db" where
  "share_src f owner d =
     (insert_sources
        \<lparr>s_fid = MAKE_FID (pf_hash f), s_sid = MAKE_SID owner,
         s_complete = of_bool (pf_complete f), s_rating = sint (pf_rating f)\<rparr> d)
       \<lparr>changes := 1\<rparr>"

text \<open>The body of the loop of \<^verbatim>\<open>db_share_files\<close> for an entry with a name.\<close>

definition share_entry :: "collab \<Rightarrow> pub_file \<Rightarrow> client \<Rightarrow> db \<Rightarrow> bool \<times> db" where
  "share_entry e f owner d =
     (let (ok1, d1) = exec_stmt (share_upd e f) d in
      if \<not> ok1 then (False, d1)
      else
        let (ok2, d2) = (if changes d1 = 0 then exec_stmt (share_ins e f) d1 else (True, d1)) in
        if \<not> ok2 then (False, d2)
        else exec_stmt (share_src f owner) d2)"

fun db_share_files :: "collab \<Rightarrow> db \<Rightarrow> pub_file list \<Rightarrow> client \<Rightarrow> int \<times> db" where
  "db_share_files e d [] owner = (1, d)"
| "db_share_files e d (f # fs) owner =
     (if pf_name_len f = 0 then db_share_files e d fs owner
      else
        (case share_entry e f owner d of
           (True, d') \<Rightarrow> db_share_files e d' fs owner
         | (False, d') \<Rightarrow> (0, d')))"

definition remove_src :: "client \<Rightarrow> db \<Rightarrow> db" where
  "remove_src clnt d =
     (let n = length (filter (\<lambda>s. s_sid s = MAKE_SID clnt) (sources d))
      in (delete_sources (MAKE_SID clnt) d)\<lparr>changes := n\<rparr>)"

definition db_remove_source :: "db \<Rightarrow> client \<Rightarrow> int \<times> db" where
  "db_remove_source d clnt =
     (case exec_stmt (remove_src clnt) d of
        (True, d') \<Rightarrow> (1, d')
      | (False, d') \<Rightarrow> (0, d'))"

text \<open>
  A history of calls on one connection, stopped (\<open>None\<close>) by the first call that
  returns 0.
\<close>

datatype call = Share "pub_file list" client | Remove client

fun apply_call :: "collab \<Rightarrow> call \<Rightarrow> db \<Rightarrow> int \<times> db" where
  "apply_call e (Share fs owner) d = db_share_files e d fs owner"
| "apply_call e (Remove clnt) d = db_remove_source d clnt"

fun run_calls :: "collab \<Rightarrow> call list \<Rightarrow> db \<Rightarrow> db option" where
  "run_calls e [] d = Some d"
| "run_calls e (c # cs) d =
     (case apply_call e c d of (r, d') \<Rightarrow> if r = 1 then run_calls e cs d' else None)"

text \<open>The live source rows of a file, and the agreement of the aggregate counters with them.\<close>

definition sources_of :: "db \<Rightarrow> 64 word \<Rightarrow> source_row list" where
  "sources_of d k = filter (\<lambda>s. s_fid s = k) (sources d)"

definition aggregates_ok :: "db \<Rightarrow> bool" where
  "aggregates_ok d =
     list_all (\<lambda>f.
        f_srcavail f = int (length (sources_of d (f_fid f))) \<and>
        f_srccomplete f = int (length (filter (\<lambda>s. s_complete s \<noteq> 0) (sources_of d (f_fid f)))) \<and>
        f_rating f = sum_list (map s_rating (sources_of d (f_fid f)))) (files d)"

definition rated_ok :: "db \<Rightarrow> bool" where
  "rated_ok d =
     list_all (\<lambda>f.
        f_rated_count f = int (length (filter (\<lambda>s. s_rating s \<noteq> 0) (sources_of d (f_fid f)))))
       (files d)"

subsection \<open>Stepping a statement\<close>

text \<open>
  \<^verbatim>\<open>while (((err = sqlite3_step(stmt)) == SQLITE_ROW) && (i < *count))\<close>: the cursor is
  the list of rows the statement still has to give; every call of \<^verbatim>\<open>sqlite3_step\<close>
  takes one verdict of the engine. The result is the last \<^verbatim>\<open>err\<close>, the final \<open>i\<close>,
  the rows handed to the loop body and the verdicts left.
\<close>

datatype rc = SQLITE_ROW | SQLITE_DONE | SQLITE_ERROR

fun step_rows :: "nat \<Rightarrow> 'r list \<Rightarrow> bool list \<Rightarrow> nat \<Rightarrow> 'r list \<Rightarrow> rc \<times> nat \<times> 'r list \<times> bool list" where
  "step_rows cnt [] sc i out =
     (case sc of False # bs \<Rightarrow> (SQLITE_ERROR, i, out, bs) | _ \<Rightarrow> (SQLITE_DONE, i, out, tl sc))"
| "step_rows cnt (r # rs) sc i out =
     (case sc of
        False # bs \<Rightarrow> (SQLITE_ERROR, i, out, bs)
      | _ \<Rightarrow> if i < cnt then step_rows cnt rs (tl sc) (Suc i) (out @ [r])
             else (SQLITE_ROW, i, out, tl sc))"

text \<open>\<^verbatim>\<open>LIMIT k\<close>: a negative \<open>k\<close> is no limit.\<close>

definition sql_limit :: "int \<Rightarrow> 'r list \<Rightarrow> 'r list" where
  "sql_limit k rows = (if k < 0 then rows else take (nat k) rows)"

text \<open>
  \<^verbatim>\<open>sqlite3_bind_int\<close> takes an \<^verbatim>\<open>int\<close>: a \<^verbatim>\<open>size_t\<close> argument is converted to 32
  bits, two's complement.
\<close>

definition int_of_size :: "nat \<Rightarrow> int" where
  "int_of_size n = sint (word_of_nat n :: 32 word)"

subsection \<open>Sources of a file\<close>




section \<open>Search compiler\<close>

text \<open>
  Modelled from the spec: \<^verbatim>\<open>struct search_node\<close> and its type enumeration, whose
  declarations are in a header that is not part of this file. The fields are the ones
  the code reads and writes, as the specification's SearchNode names them. The
  constants are the ones the code names; \<^verbatim>\<open>ST_AND\<close>, \<^verbatim>\<open>ST_OR\<close>, \<^verbatim>\<open>ST_NOT\<close> are
  the values of the range test, \<open>ST_EMPTY\<close> stands for every value the code names
  nowhere. Nodes live in a store addressed by numbers; a pointer is an address or
  \<^verbatim>\<open>NULL\<close> (\<open>None\<close>). The walk writes the two visited flags into the store.
\<close>

datatype search_node_type =
  ST_EMPTY | ST_AND | ST_OR | ST_NOT | ST_STRING | ST_EXTENSION | ST_CODEC | ST_MINSIZE
  | ST_MAXSIZE | ST_SRCAVAIL | ST_SRCCOMLETE | ST_MINBITRATE | ST_MINLENGTH | ST_TYPE

record search_node =
  sn_type :: search_node_type
  sn_parent :: "nat option"
  sn_left_visited :: bool
  sn_right_visited :: bool
  sn_string_term :: bool
  sn_str_len :: nat
  sn_str_val :: string
  sn_int_val :: "64 word"
  sn_left :: "nat option"
  sn_right :: "nat option"

type_synonym heap = "nat \<Rightarrow> search_node option"

definition MAX_SEARCH_QUERY_LEN :: nat where
  "MAX_SEARCH_QUERY_LEN = 1024"

definition MAX_NAME_TERM_LEN :: nat where
  "MAX_NAME_TERM_LEN = 1024"

record params =
  name_term :: string
  name_len :: nat
  minsize :: "64 word"
  maxsize :: "64 word"
  srcavail :: "64 word"
  srccomplete :: "64 word"
  minbitrate :: "64 word"
  minlength :: "64 word"
  ext_node :: "nat option"
  codec_node :: "nat option"
  type_node :: "nat option"

text \<open>\<^verbatim>\<open>memset(&params, 0, sizeof params)\<close>.\<close>

definition params0 :: params where
  "params0 = \<lparr>name_term = [], name_len = 0, minsize = 0, maxsize = 0, srcavail = 0,
     srccomplete = 0, minbitrate = 0, minlength = 0, ext_node = None, codec_node = None,
     type_node = None\<rparr>"

text \<open>
  \<^verbatim>\<open>strncat\<close> appends at most \<open>n\<close> bytes of the source and stops at a NUL byte. The
  buffer is a C string: its text ends at the first NUL, and nothing appended contains
  one.
\<close>

definition strncat :: "string \<Rightarrow> string \<Rightarrow> nat \<Rightarrow> string" where
  "strncat dst src n = dst @ takeWhile (\<lambda>c. c \<noteq> CHR 0x00) (take n src)"

text \<open>
  The pattern \<^verbatim>\<open>name_len += n; DB_CHECK(name_len < sizeof name_term); strcat(...)\<close>;
  \<open>None\<close> is the jump to \<^verbatim>\<open>failed\<close>. \<^verbatim>\<open>sizeof name_term\<close> is
  \<open>MAX_NAME_TERM_LEN + 1\<close>.
\<close>

definition add_term :: "nat \<Rightarrow> string \<Rightarrow> params \<Rightarrow> params option" where
  "add_term n s ps =
     (let ps1 = ps\<lparr>name_len := name_len ps + n\<rparr>
      in if name_len ps1 < MAX_NAME_TERM_LEN + 1
         then Some (ps1\<lparr>name_term := name_term ps1 @ s\<rparr>) else None)"

definition is_operator :: "search_node_type \<Rightarrow> bool" where
  "is_operator t = (t = ST_AND \<or> t = ST_OR \<or> t = ST_NOT)"

definition oper_width :: "search_node_type \<Rightarrow> nat" where
  "oper_width t = (if t = ST_OR then 4 else 5)"

definition oper :: "search_node_type \<Rightarrow> string" where
  "oper t = (if t = ST_AND then '' AND '' else if t = ST_OR then '' OR '' else '' NOT '')"

text \<open>The \<^verbatim>\<open>switch\<close> of the leaf branch; \<open>p\<close> is the address of the node.\<close>

definition leaf_visit :: "nat \<Rightarrow> search_node \<Rightarrow> params \<Rightarrow> params option" where
  "leaf_visit p nd ps =
     (case sn_type nd of
        ST_STRING \<Rightarrow>
          (let ps1 = ps\<lparr>name_len := name_len ps + sn_str_len nd\<rparr>
           in if name_len ps1 < MAX_NAME_TERM_LEN + 1
              then Some (ps1\<lparr>name_term :=
                            strncat (name_term ps1) (sn_str_val nd) (sn_str_len nd)\<rparr>)
              else None)
      | ST_EXTENSION \<Rightarrow> Some (ps\<lparr>ext_node := Some p\<rparr>)
      | ST_CODEC \<Rightarrow> Some (ps\<lparr>codec_node := Some p\<rparr>)
      | ST_MINSIZE \<Rightarrow> Some (ps\<lparr>minsize := sn_int_val nd\<rparr>)
      | ST_MAXSIZE \<Rightarrow> Some (ps\<lparr>maxsize := sn_int_val nd\<rparr>)
      | ST_SRCAVAIL \<Rightarrow> Some (ps\<lparr>srcavail := sn_int_val nd\<rparr>)
      | ST_SRCCOMLETE \<Rightarrow> Some (ps\<lparr>srccomplete := sn_int_val nd\<rparr>)
      | ST_MINBITRATE \<Rightarrow> Some (ps\<lparr>minbitrate := sn_int_val nd\<rparr>)
      | ST_MINLENGTH \<Rightarrow> Some (ps\<lparr>minlength := sn_int_val nd\<rparr>)
      | ST_TYPE \<Rightarrow> Some (ps\<lparr>type_node := Some p\<rparr>)
      | _ \<Rightarrow> None)"

text \<open>
  One turn of the \<^verbatim>\<open>while (snode)\<close> loop at the node \<open>nd\<close> stored at \<open>p\<close>: the next
  \<^verbatim>\<open>snode\<close>, the store and the parameters, or \<open>None\<close> for the jump to \<^verbatim>\<open>failed\<close>.
\<close>

definition walk_step :: "nat \<Rightarrow> search_node \<Rightarrow> heap \<Rightarrow> params \<Rightarrow> (nat option \<times> heap \<times> params) option" where
  "walk_step p nd h ps =
     (if is_operator (sn_type nd) then
        (if \<not> sn_left_visited nd then
           (case (if sn_string_term nd then add_term 1 ''('' ps else Some ps) of
              None \<Rightarrow> None
            | Some ps1 \<Rightarrow> Some (sn_left nd, h(p \<mapsto> nd\<lparr>sn_left_visited := True\<rparr>), ps1))
         else if \<not> sn_right_visited nd then
           (case (if sn_string_term nd
                  then add_term (oper_width (sn_type nd)) (oper (sn_type nd)) ps
                  else Some ps) of
              None \<Rightarrow> None
            | Some ps1 \<Rightarrow> Some (sn_right nd, h(p \<mapsto> nd\<lparr>sn_right_visited := True\<rparr>), ps1))
         else
           (case (if sn_string_term nd then add_term 1 '')'' ps else Some ps) of
              None \<Rightarrow> None
            | Some ps1 \<Rightarrow> Some (sn_parent nd, h, ps1)))
      else
        (case leaf_visit p nd ps of
           None \<Rightarrow> None
         | Some ps1 \<Rightarrow> Some (sn_parent nd, h, ps1)))"

text \<open>
  The loop. It ends when \<^verbatim>\<open>snode\<close> is \<^verbatim>\<open>NULL\<close> or a check fails; the outer \<open>None\<close>
  is no result at all: the loop runs forever, or follows a pointer to no node.
\<close>

datatype walk_result = WFailed heap | WDone heap params

partial_function (option) walk :: "nat option \<Rightarrow> heap \<Rightarrow> params \<Rightarrow> walk_result option" where
  "walk snode h ps =
     (case snode of
        None \<Rightarrow> Some (WDone h ps)
      | Some p \<Rightarrow>
          (case h p of
             None \<Rightarrow> None
           | Some nd \<Rightarrow>
               (case walk_step p nd h ps of
                  None \<Rightarrow> Some (WFailed h)
                | Some (q, h1, ps1) \<Rightarrow> walk q h1 ps1)))"

section \<open>Search executor\<close>

definition base_query :: string where
  "base_query =
     '' SELECT f.hash,f.name,f.size,f.type,f.ext,f.srcavail,f.srccomplete,f.rating,f.rated_count,'' @
     ''  (SELECT sid FROM sources WHERE fid=f.fid LIMIT 1) AS sid,'' @
     ''  f.mlength,f.mbitrate,f.mcodec '' @
     '' FROM fnames n'' @
     '' JOIN files f ON f.fid = n.docid'' @
     '' WHERE fnames MATCH ?''"

text \<open>The predicates appended to the statement, in the order of the code.\<close>

definition clauses :: "params \<Rightarrow> string list" where
  "clauses ps =
     (if ext_node ps \<noteq> None then ['' AND f.ext=?''] else []) @
     (if codec_node ps \<noteq> None then ['' AND f.mcodec=?''] else []) @
     (if minsize ps \<noteq> 0 then ['' AND f.size>?''] else []) @
     (if maxsize ps \<noteq> 0 then ['' AND f.size<?''] else []) @
     (if srcavail ps \<noteq> 0 then ['' AND f.srcavail>?''] else []) @
     (if srccomplete ps \<noteq> 0 then ['' AND f.srccomplete>?''] else []) @
     (if minbitrate ps \<noteq> 0 then ['' AND f.mbitrate>?''] else []) @
     (if minlength ps \<noteq> 0 then ['' AND f.mlength>?''] else []) @
     (if type_node ps \<noteq> None then ['' AND f.type=?''] else [])"

definition query :: "params \<Rightarrow> string" where
  "query ps = base_query @ concat (clauses ps) @ '' LIMIT ?''"

text \<open>
  The values bound to the statement, in order. The search text is bound with
  \<open>name_len + 1\<close> bytes of the zeroed buffer: the text and the zero bytes after it.
\<close>

datatype sql_value = SqlNull | SqlInt int | SqlText string

definition match_text :: "params \<Rightarrow> string" where
  "match_text ps =
     name_term ps @ replicate (name_len ps + 1 - length (name_term ps)) (CHR 0x00)"

definition node_text :: "heap \<Rightarrow> nat \<Rightarrow> string" where
  "node_text h p =
     (case h p of None \<Rightarrow> [] | Some nd \<Rightarrow> bind_text (sn_str_val nd) (sn_str_len nd))"

definition node_file_type :: "collab \<Rightarrow> heap \<Rightarrow> nat \<Rightarrow> 8 word" where
  "node_file_type e h p =
     (case h p of None \<Rightarrow> 0 | Some nd \<Rightarrow> get_ed2k_file_type e (sn_str_val nd) (sn_str_len nd))"


text \<open>
  What the statement selects, before \<^verbatim>\<open>LIMIT\<close>: the rows of \<^verbatim>\<open>files\<close> joined to
  the index entries that match the search text and pass every appended predicate.
  Matching is the engine's: \<open>fts_match\<close> turns the bound text into a test on
  indexed names, or rejects it (\<open>None\<close>), which \<^verbatim>\<open>sqlite3_step\<close> reports as an error.
  The full-text index gives its matches by ascending document id, and the id is a
  signed 64-bit integer: \<open>docid_order\<close> is that scan of the index.
\<close>

definition docid_order :: "(64 word \<times> string) list \<Rightarrow> (64 word \<times> string) list" where
  "docid_order ns = sort_key (\<lambda>n. sint (fst n)) ns"

definition row_passes :: "collab \<Rightarrow> heap \<Rightarrow> params \<Rightarrow> file_row \<Rightarrow> bool" where
  "row_passes e h ps f =
     ((case ext_node ps of None \<Rightarrow> True | Some p \<Rightarrow> f_ext f = Some (node_text h p)) \<and>
      (case codec_node ps of None \<Rightarrow> True | Some p \<Rightarrow> f_mcodec f = Some (node_text h p)) \<and>
      (if minsize ps \<noteq> 0 then sint (minsize ps) < f_size f else True) \<and>
      (if maxsize ps \<noteq> 0 then f_size f < sint (maxsize ps) else True) \<and>
      (if srcavail ps \<noteq> 0 then sint (srcavail ps) < f_srcavail f else True) \<and>
      (if srccomplete ps \<noteq> 0 then sint (srccomplete ps) < f_srccomplete f else True) \<and>
      (if minbitrate ps \<noteq> 0 then sint (minbitrate ps) < f_mbitrate f else True) \<and>
      (if minlength ps \<noteq> 0 then sint (minlength ps) < f_mlength f else True) \<and>
      (case type_node ps of None \<Rightarrow> True | Some p \<Rightarrow> f_type f = uint (node_file_type e h p)))"

definition search_select :: "collab \<Rightarrow> db \<Rightarrow> heap \<Rightarrow> params \<Rightarrow> file_row list option" where
  "search_select e d h ps =
     (case fts_match e (match_text ps) of
        None \<Rightarrow> None
      | Some m \<Rightarrow>
          Some (concat (map (\<lambda>n. if m (snd n)
                                  then filter (\<lambda>f. f_fid f = fst n \<and> row_passes e h ps f) (files d)
                                  else []) (docid_order (fnames d)))))"

text \<open>The matching files of a query: what the statement would select without a limit.\<close>

definition matching_rows :: "collab \<Rightarrow> db \<Rightarrow> heap \<Rightarrow> params \<Rightarrow> file_row list" where
  "matching_rows e d h ps = (case search_select e d h ps of None \<Rightarrow> [] | Some sel \<Rightarrow> sel)"

text \<open>
  Modelled from the spec: \<^verbatim>\<open>struct search_file\<close>, whose declaration is in a header that
  is not part of this file; the fields are the ones the code fills from one row, typed
  as the specification's FileSearchResult. \<^verbatim>\<open>sqlite3_column_int\<close> gives the low 32
  bits of the column; the representative source is the first source row of the file,
  0 when there is none.
\<close>

record search_file =
  sf_hash :: "8 word list"
  sf_name_len :: nat
  sf_name :: string
  sf_size :: int
  sf_type :: int
  sf_ext_len :: nat
  sf_ext :: "string option"
  sf_srcavail :: int
  sf_srccomplete :: int
  sf_rating :: int
  sf_rated_count :: int
  sf_client_id :: "32 word"
  sf_client_port :: "16 word"
  sf_media_length :: int
  sf_media_bitrate :: int
  sf_media_codec_len :: nat
  sf_media_codec :: "string option"

definition column_int :: "int \<Rightarrow> int" where
  "column_int v = sint (word_of_int v :: 32 word)"

definition column_bytes :: "string option \<Rightarrow> nat" where
  "column_bytes v = (case v of None \<Rightarrow> 0 | Some s \<Rightarrow> length s)"

definition first_sid :: "db \<Rightarrow> 64 word \<Rightarrow> 64 word" where
  "first_sid d k = (case sources_of d k of [] \<Rightarrow> 0 | s # ss \<Rightarrow> s_sid s)"

definition result_of :: "collab \<Rightarrow> db \<Rightarrow> file_row \<Rightarrow> search_file" where
  "result_of e d f =
     \<lparr>sf_hash = f_hash f,
      sf_name_len = min (length (f_name f)) (MAX_FILENAME_LEN e),
      sf_name = f_name f,
      sf_size = f_size f,
      sf_type = column_int (f_type f),
      sf_ext_len = min (column_bytes (f_ext f)) (MAX_FILEEXT_LEN e),
      sf_ext = f_ext f,
      sf_srcavail = column_int (f_srcavail f),
      sf_srccomplete = column_int (f_srccomplete f),
      sf_rating = column_int (f_rating f),
      sf_rated_count = column_int (f_rated_count f),
      sf_client_id = GET_SID_ID (first_sid d (f_fid f)),
      sf_client_port = GET_SID_PORT (first_sid d (f_fid f)),
      sf_media_length = column_int (f_mlength f),
      sf_media_bitrate = column_int (f_mbitrate f),
      sf_media_codec_len = min (column_bytes (f_mcodec f)) (MAX_FILEEXT_LEN e),
      sf_media_codec = f_mcodec f\<rparr>"

record search_out =
  so_ret :: int
  so_heap :: heap
  so_buf :: "search_file list"
  so_count :: nat
  so_db :: db

text \<open>
  The execution of the compiled statement: \<^verbatim>\<open>sqlite3_prepare_v2\<close> and the binds
  take one verdict, then the rows are stepped. \<^verbatim>\<open>write_search_file\<close> appends a record
  to the output buffer. \<open>rows\<close> is the selection under \<^verbatim>\<open>LIMIT\<close>, \<open>None\<close> when
  the engine rejects the search text at the first step.
\<close>

definition run_query :: "collab \<Rightarrow> db \<Rightarrow> heap \<Rightarrow> params \<Rightarrow> search_file list \<Rightarrow> nat \<Rightarrow> search_out" where
  "run_query e d h ps buf count =
     (case exec_stmt (\<lambda>x. x) d of
        (False, d1) \<Rightarrow> \<lparr>so_ret = 0, so_heap = h, so_buf = buf, so_count = count, so_db = d1\<rparr>
      | (True, d1) \<Rightarrow>
          (case search_select e d1 h ps of
             None \<Rightarrow>
               \<lparr>so_ret = (if 0 = count then 1 else 0), so_heap = h, so_buf = buf,
                so_count = count, so_db = d1\<lparr>rc_script := tl (rc_script d1)\<rparr>\<rparr>
           | Some sel \<Rightarrow>
               (let rows = sql_limit (int_of_size count) sel;
                    (err, i, out, sc) = step_rows count rows (rc_script d1) 0 [];
                    buf1 = buf @ map (result_of e d1) out;
                    d2 = d1\<lparr>rc_script := sc\<rparr>
                in if i = count \<or> err = SQLITE_DONE
                   then \<lparr>so_ret = 1, so_heap = h, so_buf = buf1, so_count = i, so_db = d2\<rparr>
                   else \<lparr>so_ret = 0, so_heap = h, so_buf = buf1, so_count = count,
                         so_db = d2\<rparr>)))"

text \<open>
  \<^verbatim>\<open>db_search_files\<close>: compile (the walk), then execute. \<open>None\<close> only when the walk
  gives no result.
\<close>

definition db_search_files :: "collab \<Rightarrow> db \<Rightarrow> heap \<Rightarrow> nat option \<Rightarrow> search_file list \<Rightarrow> nat \<Rightarrow> search_out option" where
  "db_search_files e d h snode buf count =
     (case walk snode h params0 of
        None \<Rightarrow> None
      | Some (WFailed h1) \<Rightarrow>
          Some \<lparr>so_ret = 0, so_heap = h1, so_buf = buf, so_count = count, so_db = d\<rparr>
      | Some (WDone h1 ps) \<Rightarrow> Some (run_query e d h1 ps buf count))"

section \<open>Trees in the store\<close>

text \<open>
  The shape of a search tree, with the address of every node. \<open>tree_at h par t\<close>
  says that the store \<open>h\<close> holds the tree \<open>t\<close> as the external parser delivers it: each
  node at its address, leaves typed as leaves, operators typed as operators and linked
  to their two children, every node pointing back to its parent (\<open>par\<close> for the
  root), and both visited flags of every operator clear.
\<close>

datatype ptree = PLeaf nat | POp nat ptree ptree

fun root :: "ptree \<Rightarrow> nat" where
  "root (PLeaf a) = a"
| "root (POp a l r) = a"

fun addrs :: "ptree \<Rightarrow> nat list" where
  "addrs (PLeaf a) = [a]"
| "addrs (POp a l r) = a # addrs l @ addrs r"

fun op_addrs :: "ptree \<Rightarrow> nat list" where
  "op_addrs (PLeaf a) = []"
| "op_addrs (POp a l r) = a # op_addrs l @ op_addrs r"

fun tree_at :: "heap \<Rightarrow> nat option \<Rightarrow> ptree \<Rightarrow> bool" where
  "tree_at h par (PLeaf a) =
     (case h a of
        None \<Rightarrow> False
      | Some nd \<Rightarrow> \<not> is_operator (sn_type nd) \<and> sn_parent nd = par)"
| "tree_at h par (POp a l r) =
     (case h a of
        None \<Rightarrow> False
      | Some nd \<Rightarrow>
          is_operator (sn_type nd) \<and> sn_parent nd = par \<and>
          \<not> sn_left_visited nd \<and> \<not> sn_right_visited nd \<and>
          sn_left nd = Some (root l) \<and> sn_right nd = Some (root r) \<and>
          tree_at h (Some a) l \<and> tree_at h (Some a) r)"

text \<open>The store after a walk over \<open>t\<close>: both flags of every operator of \<open>t\<close> set.\<close>

definition mark :: "ptree \<Rightarrow> heap \<Rightarrow> heap" where
  "mark t h =
     (\<lambda>x. if x \<in> set (op_addrs t)
          then map_option (\<lambda>nd. nd\<lparr>sn_left_visited := True, sn_right_visited := True\<rparr>) (h x)
          else h x)"

text \<open>
  The walk told by recursion on the tree: what the three visits of an operator and the
  visit of a leaf do to the parameters, \<open>None\<close> when a check fails.
\<close>

definition paren :: "search_node \<Rightarrow> nat \<Rightarrow> string \<Rightarrow> params \<Rightarrow> params option" where
  "paren nd n s ps = (if sn_string_term nd then add_term n s ps else Some ps)"

fun sem :: "heap \<Rightarrow> ptree \<Rightarrow> params \<Rightarrow> params option" where
  "sem h (PLeaf a) ps = (case h a of None \<Rightarrow> None | Some nd \<Rightarrow> leaf_visit a nd ps)"
| "sem h (POp a l r) ps =
     (case h a of
        None \<Rightarrow> None
      | Some nd \<Rightarrow>
          Option.bind (paren nd 1 ''('' ps) (\<lambda>ps1.
          Option.bind (sem h l ps1) (\<lambda>ps2.
          Option.bind (paren nd (oper_width (sn_type nd)) (oper (sn_type nd)) ps2) (\<lambda>ps3.
          Option.bind (sem h r ps3) (\<lambda>ps4.
          paren nd 1 '')'' ps4)))))"

text \<open>
  The text of a string term as \<^verbatim>\<open>strncat\<close> copies it, the text a tree renders to, and
  the length the code counts for it (\<open>str_len\<close> for a term, whatever \<^verbatim>\<open>strncat\<close>
  copies).
\<close>

definition term_text :: "search_node \<Rightarrow> string" where
  "term_text nd = takeWhile (\<lambda>c. c \<noteq> CHR 0x00) (take (sn_str_len nd) (sn_str_val nd))"

fun render :: "heap \<Rightarrow> ptree \<Rightarrow> string" where
  "render h (PLeaf a) =
     (case h a of
        None \<Rightarrow> []
      | Some nd \<Rightarrow> if sn_type nd = ST_STRING then term_text nd else [])"
| "render h (POp a l r) =
     (case h a of
        None \<Rightarrow> []
      | Some nd \<Rightarrow>
          if sn_string_term nd
          then ''('' @ render h l @ oper (sn_type nd) @ render h r @ '')''
          else render h l @ render h r)"

fun rlen :: "heap \<Rightarrow> ptree \<Rightarrow> nat" where
  "rlen h (PLeaf a) =
     (case h a of
        None \<Rightarrow> 0
      | Some nd \<Rightarrow> if sn_type nd = ST_STRING then sn_str_len nd else 0)"
| "rlen h (POp a l r) =
     (case h a of
        None \<Rightarrow> 0
      | Some nd \<Rightarrow>
          if sn_string_term nd
          then 1 + rlen h l + oper_width (sn_type nd) + rlen h r + 1
          else rlen h l + rlen h r)"

text \<open>
  The rendering in the words of the specification: every operator node gives an
  opening parenthesis, its left subtree, its keyword, its right subtree and a closing
  parenthesis; a string term gives its text and a typed filter gives nothing.
\<close>

definition keyword :: "search_node_type \<Rightarrow> string" where
  "keyword t =
     (case t of ST_AND \<Rightarrow> '' AND '' | ST_OR \<Rightarrow> '' OR '' | ST_NOT \<Rightarrow> '' NOT '' | _ \<Rightarrow> [])"

fun infix_render :: "heap \<Rightarrow> ptree \<Rightarrow> string" where
  "infix_render h (PLeaf a) =
     (case h a of
        None \<Rightarrow> []
      | Some nd \<Rightarrow> if sn_type nd = ST_STRING then term_text nd else [])"
| "infix_render h (POp a l r) =
     (case h a of
        None \<Rightarrow> []
      | Some nd \<Rightarrow>
          ''('' @ infix_render h l @ keyword (sn_type nd) @ infix_render h r @ '')'')"

fun all_string_term :: "heap \<Rightarrow> ptree \<Rightarrow> bool" where
  "all_string_term h (PLeaf a) = True"
| "all_string_term h (POp a l r) =
     ((case h a of None \<Rightarrow> False | Some nd \<Rightarrow> sn_string_term nd) \<and>
      all_string_term h l \<and> all_string_term h r)"

text \<open>The leaf types the \<^verbatim>\<open>switch\<close> has a case for.\<close>

definition known_leaf :: "search_node_type \<Rightarrow> bool" where
  "known_leaf t =
     (t = ST_STRING \<or> t = ST_EXTENSION \<or> t = ST_CODEC \<or> t = ST_MINSIZE \<or> t = ST_MAXSIZE \<or>
      t = ST_SRCAVAIL \<or> t = ST_SRCCOMLETE \<or> t = ST_MINBITRATE \<or> t = ST_MINLENGTH \<or>
      t = ST_TYPE)"

fun leaves_known :: "heap \<Rightarrow> ptree \<Rightarrow> bool" where
  "leaves_known h (PLeaf a) = (case h a of None \<Rightarrow> False | Some nd \<Rightarrow> known_leaf (sn_type nd))"
| "leaves_known h (POp a l r) = (leaves_known h l \<and> leaves_known h r)"




section \<open>Invariants and example data\<close>

subsection \<open>The invariant of the catalog\<close>

text \<open>
  What holds of every catalog reached from \<^verbatim>\<open>db_create\<close> by calls that succeed: the
  aggregates of every file row agree with its source rows, every source row has its
  file row, the \<^verbatim>\<open>complete\<close> column holds 0 or 1, every indexed document is a file
  row, and no file row has \<^verbatim>\<open>srcavail\<close> 0. \<open>nonzero_except K\<close> lets the files with a
  key in \<open>K\<close> out of the last condition: between the insertion of a file row and the
  insertion of its first source row the counter is 0.
\<close>

definition no_orphans :: "db \<Rightarrow> bool" where
  "no_orphans d = (\<forall>s \<in> set (sources d). s_fid s \<in> f_fid ` set (files d))"

definition complete01 :: "db \<Rightarrow> bool" where
  "complete01 d = (\<forall>s \<in> set (sources d). s_complete s = 0 \<or> s_complete s = 1)"

definition fnames_sub :: "db \<Rightarrow> bool" where
  "fnames_sub d = (fst ` set (fnames d) \<subseteq> f_fid ` set (files d))"

definition wf_db :: "db \<Rightarrow> bool" where
  "wf_db d = (aggregates_ok d \<and> no_orphans d \<and> complete01 d \<and> fnames_sub d)"

definition nonzero_except :: "64 word set \<Rightarrow> db \<Rightarrow> bool" where
  "nonzero_except K d = (\<forall>f \<in> set (files d). f_fid f \<notin> K \<longrightarrow> f_srcavail f \<noteq> 0)"

definition db_inv :: "db \<Rightarrow> bool" where
  "db_inv d = (wf_db d \<and> nonzero_except {} d)"

text \<open>The aggregates of one file row, as in \<open>aggregates_ok\<close>.\<close>

definition agg_row :: "db \<Rightarrow> file_row \<Rightarrow> bool" where
  "agg_row d f =
     (f_srcavail f = int (length (sources_of d (f_fid f))) \<and>
      f_srccomplete f = int (length (filter (\<lambda>s. s_complete s \<noteq> 0) (sources_of d (f_fid f)))) \<and>
      f_rating f = sum_list (map s_rating (sources_of d (f_fid f))))"

subsection \<open>The walk and the recursion on the tree\<close>

text \<open>
  \<open>walk_spec h par t ps\<close>: started at the root of \<open>t\<close>, the loop either reaches the
  parent of \<open>t\<close> with the store marked and the parameters \<open>sem\<close> computes, or it
  fails where \<open>sem\<close> fails. \<open>walk_twice\<close> gives the search texts of two successive
  walks of the same tree object, the second one on the store the first one left.
\<close>

definition walk_spec :: "heap \<Rightarrow> nat option \<Rightarrow> ptree \<Rightarrow> params \<Rightarrow> bool" where
  "walk_spec h par t ps =
     (case sem h t ps of
        Some ps' \<Rightarrow> walk (Some (root t)) h ps = walk par (mark t h) ps'
      | None \<Rightarrow> (\<exists>h'. walk (Some (root t)) h ps = Some (WFailed h')))"

definition walk_twice :: "nat option \<Rightarrow> heap \<Rightarrow> (string \<times> string) option" where
  "walk_twice snode h =
     (case walk snode h params0 of
        Some (WDone h1 ps1) \<Rightarrow>
          (case walk snode h1 params0 of
             Some (WDone h2 ps2) \<Rightarrow> Some (name_term ps1, name_term ps2)
           | _ \<Rightarrow> None)
      | _ \<Rightarrow> None)"

subsection \<open>Example data\<close>

text \<open>
  Two announced files, two peers, a history of three calls, and a few search trees.
  The example engine accepts every search text and matches every name.
\<close>

definition ex_env :: collab where
  "ex_env = \<lparr>file_extension = (\<lambda>s n. None), get_ed2k_file_type = (\<lambda>s n. 0),
         fts_match = (\<lambda>s. Some (\<lambda>n. True)), MAX_FILENAME_LEN = 255, MAX_FILEEXT_LEN = 16\<rparr>"

definition ex_file_a :: pub_file where
  "ex_file_a = \<lparr>pf_hash = [1,1,1,1,1,1,1,1,1,1,1,1,1,1,1,1], pf_name_len = 8, pf_name = ''song.mp3'',
     pf_size = 5000000, pf_type = 1,
     pf_media_length = 0, pf_media_bitrate = 0, pf_media_codec_len = 0, pf_media_codec = [],
     pf_complete = True, pf_rating = 5\<rparr>"

definition ex_file_b :: pub_file where
  "ex_file_b = \<lparr>pf_hash = [2,2,2,2,2,2,2,2,2,2,2,2,2,2,2,2], pf_name_len = 8, pf_name = ''film.avi'',
     pf_size = 700000000, pf_type = 2,
     pf_media_length = 0, pf_media_bitrate = 0, pf_media_codec_len = 0, pf_media_codec = [],
     pf_complete = False, pf_rating = 0\<rparr>"

definition ex_file_a0 :: pub_file where
  "ex_file_a0 = ex_file_a\<lparr>pf_complete := False, pf_rating := 0\<rparr>"

definition ex_empty :: pub_file where
  "ex_empty = ex_file_b\<lparr>pf_name_len := 0\<rparr>"

definition ex_peer1 :: client where "ex_peer1 = \<lparr>cl_id = 0x0A000001, cl_port = 4662\<rparr>"

definition ex_peer2 :: client where "ex_peer2 = \<lparr>cl_id = 0x0A000002, cl_port = 4662\<rparr>"

definition ex_db0 :: db where
  "ex_db0 = \<lparr>files = [], fnames = [], sources = [], changes = 0, rc_script = []\<rparr>"

definition ex_calls :: "call list" where
  "ex_calls = [Share [ex_file_a, ex_file_b] ex_peer1,
               Share [ex_file_a0] ex_peer2,
               Remove ex_peer1]"

definition ex_db2 :: db where
  "ex_db2 = the (run_calls ex_env (take 2 ex_calls) ex_db0)"

definition ex_db3 :: db where
  "ex_db3 = the (run_calls ex_env ex_calls ex_db0)"

definition ex_leaf :: "search_node_type \<Rightarrow> nat option \<Rightarrow> string \<Rightarrow> 64 word \<Rightarrow> search_node" where
  "ex_leaf t par s v =
     \<lparr>sn_type = t, sn_parent = par, sn_left_visited = False, sn_right_visited = False,
      sn_string_term = False, sn_str_len = length s, sn_str_val = s, sn_int_val = v,
      sn_left = None, sn_right = None\<rparr>"

definition ex_op :: "search_node_type \<Rightarrow> nat option \<Rightarrow> bool \<Rightarrow> nat \<Rightarrow> nat \<Rightarrow> search_node" where
  "ex_op t par st l r =
     \<lparr>sn_type = t, sn_parent = par, sn_left_visited = False, sn_right_visited = False,
      sn_string_term = st, sn_str_len = 0, sn_str_val = [], sn_int_val = 0,
      sn_left = Some l, sn_right = Some r\<rparr>"

definition ex_term_heap :: "string \<Rightarrow> heap" where
  "ex_term_heap s = [0 \<mapsto> ex_leaf ST_STRING None s 0]"

definition ex_tree_heap :: heap where
  "ex_tree_heap =
     [0 \<mapsto> ex_op ST_OR None True 1 4,
      1 \<mapsto> ex_op ST_AND (Some 0) True 2 3,
      2 \<mapsto> ex_leaf ST_STRING (Some 1) ''A'' 0,
      3 \<mapsto> ex_leaf ST_STRING (Some 1) ''B'' 0,
      4 \<mapsto> ex_op ST_NOT (Some 0) True 5 6,
      5 \<mapsto> ex_leaf ST_STRING (Some 4) ''C'' 0,
      6 \<mapsto> ex_leaf ST_STRING (Some 4) ''D'' 0]"

definition ex_tree :: ptree where
  "ex_tree = POp 0 (POp 1 (PLeaf 2) (PLeaf 3)) (POp 4 (PLeaf 5) (PLeaf 6))"

definition ex_tree_params :: params where
  "ex_tree_params = params0\<lparr>name_len := 24, name_term := ''((A AND B) OR (C NOT D))''\<rparr>"

definition ex_dup_heap :: heap where
  "ex_dup_heap =
     [0 \<mapsto> ex_op ST_AND None False 1 2,
      1 \<mapsto> ex_leaf ST_MINSIZE (Some 0) [] 5,
      2 \<mapsto> ex_leaf ST_MINSIZE (Some 0) [] 0]"


definition ex_one_heap :: heap where
  "ex_one_heap = [0 \<mapsto> ex_leaf ST_MINSIZE None [] 5]"

definition ex_out :: search_out where
  "ex_out = the (db_search_files ex_env ex_db2 (ex_term_heap ''song'') (Some 0) [] 1)"

section \<open>Identity codec: properties\<close>

text \<open>
  Claim C7. For every address and port, unpacking the packed 64-bit source id gives back
  exactly the address and the port; in the packed value the upper 32 bits hold the
  address, the lower 16 bits hold the port, and bits 16 to 31 are zero.
\<close>

theorem sid_roundtrip:
  "GET_SID_ID (MAKE_SID \<lparr>cl_id = addr, cl_port = port\<rparr>) = addr \<and>
   GET_SID_PORT (MAKE_SID \<lparr>cl_id = addr, cl_port = port\<rparr>) = port \<and>
   drop_bit 32 (MAKE_SID \<lparr>cl_id = addr, cl_port = port\<rparr>) = ucast addr \<and>
   take_bit 16 (MAKE_SID \<lparr>cl_id = addr, cl_port = port\<rparr>) = ucast port \<and>
   take_bit 16 (drop_bit 16 (MAKE_SID \<lparr>cl_id = addr, cl_port = port\<rparr>)) = 0"
proof -
  let ?s = "MAKE_SID \<lparr>cl_id = addr, cl_port = port\<rparr>"
  have b: "bit ?s n \<longleftrightarrow> (n < 16 \<and> bit port n) \<or> (32 \<le> n \<and> n < 64 \<and> bit addr (n - 32))"
    for n
    by (auto simp add: MAKE_SID_def bit_simps dest: bit_imp_le_length)
  have "GET_SID_ID ?s = addr"
    unfolding GET_SID_ID_def
    by (rule bit_word_eqI) (auto simp add: b bit_simps dest: bit_imp_le_length)
  moreover have "GET_SID_PORT ?s = port"
    unfolding GET_SID_PORT_def
    by (rule bit_word_eqI) (auto simp add: b bit_simps dest: bit_imp_le_length)
  moreover have "drop_bit 32 ?s = ucast addr"
    by (rule bit_word_eqI) (auto simp add: b bit_simps dest: bit_imp_le_length)
  moreover have "take_bit 16 ?s = ucast port"
    by (rule bit_word_eqI) (auto simp add: b bit_simps dest: bit_imp_le_length)
  moreover have "take_bit 16 (drop_bit 16 ?s) = 0"
    by (rule bit_word_eqI) (auto simp add: b bit_simps dest: bit_imp_le_length)
  ultimately show ?thesis by blast
qed

section \<open>Catalog store: the invariant is kept\<close>

subsection \<open>Single statements\<close>

lemma fold_files_fts3:
  "\<forall>r \<in> set rows. f_fid r = k \<Longrightarrow>
   fold files_fts3 rows d =
     (if rows = [] then d else d\<lparr>fnames := filter (\<lambda>n. fst n \<noteq> k) (fnames d)\<rparr>)"
proof (induction rows arbitrary: d)
  case Nil
  then show ?case by simp
next
  case (Cons r rows)
  then show ?case by (simp add: files_fts3_def)
qed

lemma delete_files_eq:
  "delete_files k d =
     (if k \<in> f_fid ` set (files d)
      then d\<lparr>fnames := filter (\<lambda>n. fst n \<noteq> k) (fnames d), files := filter (\<lambda>r. f_fid r \<noteq> k) (files d)\<rparr>
      else d)"
proof -
  have a: "\<forall>r \<in> set (filter (\<lambda>r. f_fid r = k) (files d)). f_fid r = k" by simp
  have b: "filter (\<lambda>r. f_fid r = k) (files d) = [] \<longleftrightarrow> k \<notin> f_fid ` set (files d)"
    by (auto simp: filter_empty_conv)
  have c: "k \<notin> f_fid ` set (files d) \<Longrightarrow> filter (\<lambda>r. f_fid r \<noteq> k) (files d) = files d"
    by (auto simp: filter_id_conv)
  show ?thesis
    unfolding delete_files_def Let_def fold_files_fts3[OF a] using b c by auto
qed

lemma find_fid_None: "find (\<lambda>r. f_fid r = k) fs = None \<longleftrightarrow> k \<notin> f_fid ` set fs"
  by (auto simp: find_None_iff)

lemma find_fid_Some: "find (\<lambda>r. f_fid r = k) fs = Some old \<Longrightarrow> old \<in> set fs \<and> f_fid old = k"
  by (auto simp: find_Some_iff)

lemma filter_map_upd:
  "f_fid new = k \<Longrightarrow>
   filter (\<lambda>r. f_fid r \<noteq> k) (map (\<lambda>r. if f_fid r = k then new else r) fs)
     = filter (\<lambda>r. f_fid r \<noteq> k) fs"
  by (induction fs) auto

lemma fids_map_upd:
  "f_fid new = k \<Longrightarrow>
   f_fid ` set (map (\<lambda>r. if f_fid r = k then new else r) fs) = f_fid ` set fs"
  by (induction fs) auto

lemma update_files_keep:
  assumes "find (\<lambda>r. f_fid r = k) (files d) = Some old"
    and "f_name (g old) = f_name old" and "f_fid (g old) = k"
  shows "snd (update_files k g d) =
     (if f_srcavail (g old) = 0
      then d\<lparr>files := filter (\<lambda>r. f_fid r \<noteq> k) (files d), fnames := filter (\<lambda>n. fst n \<noteq> k) (fnames d)\<rparr>
      else d\<lparr>files := map (\<lambda>r. if f_fid r = k then g old else r) (files d)\<rparr>)"
proof -
  from assms(1) have m: "old \<in> set (files d)" "f_fid old = k" by (auto dest: find_fid_Some)
  then have kin: "k \<in> f_fid ` set (files d)" by (metis image_eqI)
  let ?m = "map (\<lambda>r. if f_fid r = k then g old else r) (files d)"
  have kin': "k \<in> f_fid ` set ?m"
    using kin fids_map_upd[OF assms(3), of "files d"] by simp
  have del: "delete_files k (d\<lparr>files := ?m\<rparr>) =
      d\<lparr>files := filter (\<lambda>r. f_fid r \<noteq> k) (files d), fnames := filter (\<lambda>n. fst n \<noteq> k) (fnames d)\<rparr>"
    using kin' filter_map_upd[OF assms(3), of "files d"]
    by (simp only: delete_files_eq) simp
  show ?thesis
    using assms(1,2) del
    by (simp add: update_files_def Let_def files_fts1_def files_fts2_def files_au_def assms(3))
qed

lemma update_files_absent:
  "k \<notin> f_fid ` set (files d) \<Longrightarrow> update_files k g d = (0, d)"
  by (simp add: update_files_def find_fid_None[symmetric])

lemma update_files_nz:
  assumes "find (\<lambda>r. f_fid r = k) (files d) = Some old"
    and "f_fid (g old) = k" and "f_srcavail (g old) \<noteq> 0"
  shows "update_files k g d =
     (1, d\<lparr>files := map (\<lambda>r. if f_fid r = k then g old else r) (files d),
          fnames := (if f_name (g old) \<noteq> f_name old
                     then filter (\<lambda>n. fst n \<noteq> k) (fnames d) @ [(k, f_name (g old))]
                     else fnames d)\<rparr>)"
proof -
  from assms(1) have m: "f_fid old = k" by (auto dest: find_fid_Some)
  show ?thesis
    using assms m
    by (simp add: update_files_def Let_def files_fts1_def files_fts2_def files_au_def)
qed

subsection \<open>Removing one row from a list\<close>

lemma filter_remove1_in:
  "P s \<Longrightarrow> filter P (remove1 s xs) = remove1 s (filter P xs)"
  by (induction xs) auto

lemma filter_remove1_out:
  "\<not> P s \<Longrightarrow> filter P (remove1 s xs) = filter P xs"
  by (induction xs) auto

lemma length_remove1_int:
  "s \<in> set xs \<Longrightarrow> int (length (remove1 s xs)) = int (length xs) - 1"
  by (induction xs) auto

lemma sum_list_remove1_int:
  "s \<in> set xs \<Longrightarrow> sum_list (map (f :: 'a \<Rightarrow> int) (remove1 s xs)) = sum_list (map f xs) - f s"
  by (induction xs) auto

subsection \<open>Source rows come and go\<close>

lemma sources_of_simps [simp]:
  "sources_of (d\<lparr>rc_script := x\<rparr>) k = sources_of d k"
  "sources_of (d\<lparr>changes := n\<rparr>) k = sources_of d k"
  "sources_of (d\<lparr>files := fs\<rparr>) k = sources_of d k"
  "sources_of (d\<lparr>fnames := ns\<rparr>) k = sources_of d k"
  "sources_of (d\<lparr>sources := ss\<rparr>) k = filter (\<lambda>s. s_fid s = k) ss"
  by (simp_all add: sources_of_def)

lemma aggregates_ok_iff: "aggregates_ok d \<longleftrightarrow> (\<forall>f \<in> set (files d). agg_row d f)"
  by (simp add: aggregates_ok_def agg_row_def list_all_iff)

lemma inv_frame [simp]:
  "db_inv (d\<lparr>rc_script := x\<rparr>) = db_inv d" "db_inv (d\<lparr>changes := n\<rparr>) = db_inv d"
  "wf_db (d\<lparr>rc_script := x\<rparr>) = wf_db d" "wf_db (d\<lparr>changes := n\<rparr>) = wf_db d"
  "nonzero_except K (d\<lparr>rc_script := x\<rparr>) = nonzero_except K d"
  "nonzero_except K (d\<lparr>changes := n\<rparr>) = nonzero_except K d"
  by (simp_all add: db_inv_def wf_db_def aggregates_ok_iff agg_row_def no_orphans_def complete01_def
      fnames_sub_def nonzero_except_def)

lemma insert_sources_inv:
  assumes wf: "wf_db d" and kin: "s_fid new \<in> f_fid ` set (files d)"
    and c01: "s_complete new = 0 \<or> s_complete new = 1"
    and nz: "nonzero_except {s_fid new} d"
  shows "db_inv (insert_sources new d)"
proof -
  let ?k = "s_fid new"
  let ?d0 = "d\<lparr>sources := sources d @ [new]\<rparr>"
  let ?g = "\<lambda>f. f\<lparr>f_srcavail := f_srcavail f + 1,
              f_srccomplete := f_srccomplete f + s_complete new,
              f_rating := f_rating f + s_rating new,
              f_rated_count := (if s_rating new \<noteq> 0 then f_rated_count f + 1 else 0)\<rparr>"
  from kin obtain old where old: "find (\<lambda>r. f_fid r = ?k) (files ?d0) = Some old"
    using find_fid_None[of ?k "files d"] by (cases "find (\<lambda>r. f_fid r = ?k) (files d)") auto
  then have oldin: "old \<in> set (files d)" "f_fid old = ?k" by (auto dest: find_fid_Some)
  from wf have agg: "\<forall>f \<in> set (files d). agg_row d f" by (simp add: wf_db_def aggregates_ok_iff)
  with oldin have aold: "agg_row d old" by blast
  then have pos: "f_srcavail (?g old) \<noteq> 0" by (simp add: agg_row_def)
  have eq: "insert_sources new d =
      ?d0\<lparr>files := map (\<lambda>r. if f_fid r = ?k then ?g old else r) (files ?d0)\<rparr>"
    unfolding insert_sources_def sources_ai_def
    using update_files_keep[OF old, of ?g] pos oldin by simp
  have gold: "agg_row (insert_sources new d) (?g old)"
    using aold oldin c01 unfolding eq by (auto simp add: agg_row_def sources_of_def)
  have other: "agg_row (insert_sources new d) r" if "r \<in> set (files d)" "f_fid r \<noteq> ?k" for r
    using agg that unfolding eq by (auto simp add: agg_row_def sources_of_def)
  have a: "aggregates_ok (insert_sources new d)"
    unfolding aggregates_ok_iff
  proof
    fix f assume "f \<in> set (files (insert_sources new d))"
    then have "f = ?g old \<or> (f \<in> set (files d) \<and> f_fid f \<noteq> ?k)"
      unfolding eq by auto
    then show "agg_row (insert_sources new d) f" using gold other by blast
  qed
  have fids: "f_fid ` set (files (insert_sources new d)) = f_fid ` set (files d)"
    unfolding eq using fids_map_upd[of "?g old" ?k "files d"] oldin by simp
  have b: "no_orphans (insert_sources new d)"
    using wf kin unfolding no_orphans_def fids by (auto simp: eq wf_db_def no_orphans_def)
  have c: "complete01 (insert_sources new d)"
    using wf c01 by (auto simp: eq wf_db_def complete01_def)
  have dd: "fnames_sub (insert_sources new d)"
    using wf unfolding fnames_sub_def fids by (auto simp: eq wf_db_def fnames_sub_def)
  have e: "nonzero_except {} (insert_sources new d)"
    unfolding nonzero_except_def
  proof (intro ballI impI)
    fix f assume "f \<in> set (files (insert_sources new d))"
    then have "f = ?g old \<or> (f \<in> set (files d) \<and> f_fid f \<noteq> ?k)"
      unfolding eq by auto
    then show "f_srcavail f \<noteq> 0" using pos nz by (auto simp: nonzero_except_def)
  qed
  show ?thesis using a b c dd e by (simp add: db_inv_def wf_db_def)
qed

lemma sources_bd_sources [simp]: "sources (sources_bd s d) = sources d"
  by (simp add: sources_bd_def update_files_def Let_def files_fts1_def files_fts2_def
      files_au_def delete_files_eq split: option.splits)

lemma delete_sources_row_sources [simp]:
  "sources (delete_sources_row s d) = remove1 s (sources d)"
  by (simp add: delete_sources_row_def Let_def)

lemma delete_sources_row_inv:
  assumes iv: "db_inv d" and sin: "s \<in> set (sources d)"
  shows "db_inv (delete_sources_row s d)"
proof -
  let ?k = "s_fid s"
  let ?g = "\<lambda>f. f\<lparr>f_srcavail := f_srcavail f - 1,
              f_srccomplete := f_srccomplete f - s_complete s,
              f_rating := f_rating f - s_rating s,
              f_rated_count :=
                (if s_rating s \<noteq> 0 then f_rated_count f - 1 else f_rated_count f)\<rparr>"
  let ?d' = "delete_sources_row s d"
  from iv have wf: "wf_db d" and nz: "nonzero_except {} d" by (simp_all add: db_inv_def)
  from wf have agg: "\<forall>f \<in> set (files d). agg_row d f" and no: "no_orphans d"
    and c01: "complete01 d" and fs: "fnames_sub d"
    by (simp_all add: wf_db_def aggregates_ok_iff)
  from no sin have kin: "?k \<in> f_fid ` set (files d)" by (simp add: no_orphans_def)
  then obtain old where old: "find (\<lambda>r. f_fid r = ?k) (files d) = Some old"
    using find_fid_None[of ?k "files d"] by (cases "find (\<lambda>r. f_fid r = ?k) (files d)") auto
  then have oldin: "old \<in> set (files d)" "f_fid old = ?k" by (auto dest: find_fid_Some)
  with agg have aold: "agg_row d old" by blast
  from c01 sin have sc: "s_complete s = 0 \<or> s_complete s = 1" by (simp add: complete01_def)
  have sin_k: "s \<in> set (filter (\<lambda>x. s_fid x = ?k) (sources d))" using sin by simp
  have len: "int (length (filter (\<lambda>x. s_fid x = ?k) (remove1 s (sources d))))
      = int (length (filter (\<lambda>x. s_fid x = ?k) (sources d))) - 1"
    using sin_k by (simp add: filter_remove1_in length_remove1_int)
  have lenc: "int (length (filter (\<lambda>x. s_complete x \<noteq> 0) (filter (\<lambda>x. s_fid x = ?k) (remove1 s (sources d)))))
      = int (length (filter (\<lambda>x. s_complete x \<noteq> 0) (filter (\<lambda>x. s_fid x = ?k) (sources d)))) - s_complete s"
  proof (cases "s_complete s = 0")
    case True
    then show ?thesis by (simp add: filter_remove1_out)
  next
    case False
    then have "s_complete s = 1" using sc by simp
    moreover have "s \<in> set (filter (\<lambda>x. s_fid x = ?k \<and> s_complete x \<noteq> 0) (sources d))"
      using sin False by simp
    ultimately show ?thesis using False
      by (simp add: filter_remove1_in[of "\<lambda>x. s_fid x = ?k \<and> s_complete x \<noteq> 0"] length_remove1_int)
  qed
  have sm: "sum_list (map s_rating (filter (\<lambda>x. s_fid x = ?k) (remove1 s (sources d))))
      = sum_list (map s_rating (filter (\<lambda>x. s_fid x = ?k) (sources d))) - s_rating s"
    using sin_k by (simp add: filter_remove1_in sum_list_remove1_int)
  have other_src: "filter (\<lambda>x. s_fid x = k') (remove1 s (sources d)) = filter (\<lambda>x. s_fid x = k') (sources d)"
    if "k' \<noteq> ?k" for k'
    using that by (simp add: filter_remove1_out)
  have other: "agg_row ?d' r" if "r \<in> set (files d)" "f_fid r \<noteq> ?k" "files ?d' = fl" for r fl
    using agg that other_src[of "f_fid r"] by (auto simp add: agg_row_def sources_of_def)
  show ?thesis
  proof (cases "f_srcavail (?g old) = 0")
    case True
    have eq: "?d' = d\<lparr>files := filter (\<lambda>r. f_fid r \<noteq> ?k) (files d),
                      fnames := filter (\<lambda>n. fst n \<noteq> ?k) (fnames d),
                      sources := remove1 s (sources d)\<rparr>"
      unfolding delete_sources_row_def sources_bd_def Let_def
      using update_files_keep[OF old, of ?g] True oldin by simp
    from True aold oldin have "length (filter (\<lambda>x. s_fid x = ?k) (sources d)) = 1"
      by (simp add: agg_row_def sources_of_def)
    with len have nok: "filter (\<lambda>x. s_fid x = ?k) (remove1 s (sources d)) = []" by simp
    have a: "aggregates_ok ?d'"
      unfolding aggregates_ok_iff
    proof
      fix f assume "f \<in> set (files ?d')"
      then have "f \<in> set (files d) \<and> f_fid f \<noteq> ?k" unfolding eq by auto
      then show "agg_row ?d' f" using other by blast
    qed
    have b: "no_orphans ?d'"
      unfolding no_orphans_def
    proof
      fix x assume x: "x \<in> set (sources ?d')"
      then have xin: "x \<in> set (sources d)" using set_remove1_subset[of s "sources d"] by auto
      have "s_fid x \<noteq> ?k"
      proof
        assume "s_fid x = ?k"
        with x have "x \<in> set (filter (\<lambda>x. s_fid x = ?k) (remove1 s (sources d)))" by simp
        with nok show False by simp
      qed
      moreover from no xin have "s_fid x \<in> f_fid ` set (files d)" by (simp add: no_orphans_def)
      ultimately show "s_fid x \<in> f_fid ` set (files ?d')" unfolding eq by auto
    qed
    have c: "complete01 ?d'"
      using c01 by (auto simp: complete01_def dest: notin_set_remove1)
    have dd: "fnames_sub ?d'"
      using fs unfolding eq by (auto simp: fnames_sub_def)
    have e: "nonzero_except {} ?d'"
      using nz unfolding eq by (auto simp: nonzero_except_def)
    show ?thesis using a b c dd e by (simp add: db_inv_def wf_db_def)
  next
    case False
    have eq: "?d' = d\<lparr>files := map (\<lambda>r. if f_fid r = ?k then ?g old else r) (files d),
                      sources := remove1 s (sources d)\<rparr>"
      unfolding delete_sources_row_def sources_bd_def Let_def
      using update_files_keep[OF old, of ?g] False oldin by simp
    have gold: "agg_row ?d' (?g old)"
      using aold oldin len lenc sm by (simp add: agg_row_def sources_of_def)
    have a: "aggregates_ok ?d'"
      unfolding aggregates_ok_iff
    proof
      fix f assume "f \<in> set (files ?d')"
      then have "f = ?g old \<or> (f \<in> set (files d) \<and> f_fid f \<noteq> ?k)" unfolding eq by auto
      then show "agg_row ?d' f" using gold other by blast
    qed
    have fids: "f_fid ` set (files ?d') = f_fid ` set (files d)"
      unfolding eq using fids_map_upd[of "?g old" ?k "files d"] oldin by simp
    have b: "no_orphans ?d'"
      using no unfolding no_orphans_def fids by (auto dest: notin_set_remove1)
    have c: "complete01 ?d'"
      using c01 by (auto simp: complete01_def dest: notin_set_remove1)
    have dd: "fnames_sub ?d'"
      using fs unfolding fnames_sub_def fids by (simp add: eq)
    have e: "nonzero_except {} ?d'"
      unfolding nonzero_except_def
    proof (intro ballI impI)
      fix f assume "f \<in> set (files ?d')"
      then have "f = ?g old \<or> (f \<in> set (files d) \<and> f_fid f \<noteq> ?k)" unfolding eq by auto
      then show "f_srcavail f \<noteq> 0" using False nz by (auto simp: nonzero_except_def)
    qed
    show ?thesis using a b c dd e by (simp add: db_inv_def wf_db_def)
  qed
qed

lemma fold_delete_rows:
  "db_inv d \<Longrightarrow> filter P (sources d) = ss \<Longrightarrow>
   db_inv (fold delete_sources_row ss d) \<and>
   sources (fold delete_sources_row ss d) = filter (\<lambda>s. \<not> P s) (sources d)"
proof (induction ss arbitrary: d)
  case Nil
  then have "\<forall>x \<in> set (sources d). \<not> P x" by (simp add: filter_empty_conv)
  then have "filter (\<lambda>s. \<not> P s) (sources d) = sources d" by (simp add: filter_id_conv)
  with Nil show ?case by simp
next
  case (Cons s ss)
  from Cons.prems(2) have "s \<in> set (filter P (sources d))" by simp
  then have sin: "s \<in> set (sources d)" and Ps: "P s" by simp_all
  have i1: "db_inv (delete_sources_row s d)" by (rule delete_sources_row_inv[OF Cons.prems(1) sin])
  have f1: "filter P (sources (delete_sources_row s d)) = ss"
    using Cons.prems(2) Ps by (simp add: filter_remove1_in)
  have "filter (\<lambda>s. \<not> P s) (remove1 s (sources d)) = filter (\<lambda>s. \<not> P s) (sources d)"
    using Ps by (simp add: filter_remove1_out)
  with Cons.IH[OF i1 f1] show ?case by simp
qed

lemma delete_sources_inv:
  "db_inv d \<Longrightarrow> db_inv (delete_sources k d) \<and>
     sources (delete_sources k d) = filter (\<lambda>s. s_sid s \<noteq> k) (sources d)"
  unfolding delete_sources_def
  using fold_delete_rows[of d "\<lambda>s. s_sid s = k"] by simp

lemma db_remove_source_inv:
  "db_inv d \<Longrightarrow> db_remove_source d clnt = (1, d') \<Longrightarrow>
   db_inv d' \<and> sources d' = filter (\<lambda>s. s_sid s \<noteq> MAKE_SID clnt) (sources d)"
  using delete_sources_inv[of d "MAKE_SID clnt"]
    delete_sources_inv[of "d\<lparr>rc_script := tl (rc_script d)\<rparr>" "MAKE_SID clnt"]
  by (auto simp: db_remove_source_def exec_stmt_def remove_src_def Let_def
      split: list.splits if_splits prod.splits bool.splits)

subsection \<open>The three statements of a shared file\<close>

lemma share_upd_inv:
  assumes iv: "db_inv d"
  shows "db_inv (share_upd e f d) \<and>
     (changes (share_upd e f d) = 0 \<longleftrightarrow> MAKE_FID (pf_hash f) \<notin> f_fid ` set (files (share_upd e f d)))"
proof -
  let ?k = "MAKE_FID (pf_hash f)"
  let ?g = "\<lambda>r. r\<lparr>f_name := bind_text (pf_name f) (pf_name_len f),
               f_ext := pub_ext e f,
               f_size := sint (pf_size f),
               f_type := uint (pf_type f),
               f_mlength := sint (pf_media_length f),
               f_mbitrate := sint (pf_media_bitrate f),
               f_mcodec := Some (bind_text (pf_media_codec f) (pf_media_codec_len f))\<rparr>"
  show ?thesis
  proof (cases "find (\<lambda>r. f_fid r = ?k) (files d)")
    case None
    then have "?k \<notin> f_fid ` set (files d)" by (simp add: find_fid_None)
    then have "share_upd e f d = d\<lparr>changes := 0\<rparr>"
      by (simp add: share_upd_def update_files_absent)
    then show ?thesis using iv \<open>?k \<notin> f_fid ` set (files d)\<close> by simp
  next
    case (Some old)
    then have oldin: "old \<in> set (files d)" "f_fid old = ?k" by (auto dest: find_fid_Some)
    from iv have wf: "wf_db d" and nz: "nonzero_except {} d" by (simp_all add: db_inv_def)
    from nz oldin have pos: "f_srcavail old \<noteq> 0" by (simp add: nonzero_except_def)
    let ?m = "map (\<lambda>r. if f_fid r = ?k then ?g old else r) (files d)"
    have fidsm: "f_fid ` set ?m = f_fid ` set (files d)"
      using fids_map_upd[of "?g old" ?k "files d"] oldin by simp
    have gk: "f_fid (?g old) = ?k" "f_srcavail (?g old) \<noteq> 0" using oldin pos by simp_all
    define ns where "ns = (if f_name (?g old) \<noteq> f_name old
                     then filter (\<lambda>n. fst n \<noteq> ?k) (fnames d) @ [(?k, f_name (?g old))]
                     else fnames d)"
    have eq: "share_upd e f d = d\<lparr>files := ?m, fnames := ns, changes := 1\<rparr>"
      unfolding share_upd_def ns_def
      using update_files_nz[of ?k d old ?g, OF Some gk] by simp
    have ns: "fst ` set ns \<subseteq> insert ?k (fst ` set (fnames d))"
      unfolding ns_def by auto
    from wf have agg: "\<forall>f \<in> set (files d). agg_row d f" and no: "no_orphans d"
      and c01: "complete01 d" and fs: "fnames_sub d"
      by (simp_all add: wf_db_def aggregates_ok_iff)
    have a: "aggregates_ok (share_upd e f d)"
      unfolding aggregates_ok_iff
    proof
      fix r assume "r \<in> set (files (share_upd e f d))"
      then have "r = ?g old \<or> r \<in> set (files d)" unfolding eq by auto
      then show "agg_row (share_upd e f d) r"
        using agg oldin unfolding eq by (auto simp add: agg_row_def sources_of_def)
    qed
    have kin: "?k \<in> f_fid ` set (files d)" using oldin by (metis image_eqI)
    have fidseq: "f_fid ` set (files (share_upd e f d)) = f_fid ` set (files d)"
      unfolding eq using fidsm by simp
    have b: "no_orphans (share_upd e f d)"
      using no unfolding no_orphans_def fidseq by (simp add: eq)
    have c: "complete01 (share_upd e f d)"
      using c01 unfolding complete01_def eq by simp
    have "insert ?k (fst ` set (fnames d)) \<subseteq> f_fid ` set (files d)"
      using fs kin by (simp add: fnames_sub_def)
    with ns have "fst ` set ns \<subseteq> f_fid ` set (files d)" by (rule subset_trans)
    moreover have "fnames (share_upd e f d) = ns" by (simp add: eq)
    ultimately have dd: "fnames_sub (share_upd e f d)"
      unfolding fnames_sub_def fidseq by simp
    have ee: "nonzero_except {} (share_upd e f d)"
      unfolding nonzero_except_def
    proof (intro ballI impI)
      fix r assume "r \<in> set (files (share_upd e f d))"
      then have "r = ?g old \<or> r \<in> set (files d)" unfolding eq by auto
      then show "f_srcavail r \<noteq> 0" using pos nz by (auto simp: nonzero_except_def)
    qed
    have "changes (share_upd e f d) \<noteq> 0" by (simp add: eq)
    moreover have "?k \<in> f_fid ` set (files (share_upd e f d))"
      using kin unfolding fidseq .
    ultimately show ?thesis using a b c dd ee by (simp add: db_inv_def wf_db_def)
  qed
qed

lemma share_ins_inv:
  assumes iv: "db_inv d" and kout: "MAKE_FID (pf_hash f) \<notin> f_fid ` set (files d)"
  shows "wf_db (share_ins e f d) \<and> nonzero_except {MAKE_FID (pf_hash f)} (share_ins e f d) \<and>
     MAKE_FID (pf_hash f) \<in> f_fid ` set (files (share_ins e f d))"
proof -
  let ?k = "MAKE_FID (pf_hash f)"
  from iv have wf: "wf_db d" and nz: "nonzero_except {} d" by (simp_all add: db_inv_def)
  from wf have agg: "\<forall>f \<in> set (files d). agg_row d f" and no: "no_orphans d"
    and c01: "complete01 d" and fs: "fnames_sub d"
    by (simp_all add: wf_db_def aggregates_ok_iff)
  have "\<forall>s \<in> set (sources d). s_fid s \<noteq> ?k"
    using no kout unfolding no_orphans_def by metis
  then have nosrc: "filter (\<lambda>s. s_fid s = ?k) (sources d) = []"
    "filter (\<lambda>x. s_fid x = ?k \<and> s_complete x \<noteq> 0) (sources d) = []"
    by (simp_all add: filter_empty_conv)
  have "\<forall>r \<in> set (files d). f_fid r \<noteq> ?k"
    using kout by (metis image_eqI)
  then have keep: "filter (\<lambda>r. f_fid r \<noteq> ?k) (files d) = files d"
    by (simp add: filter_id_conv)
  define new where "new = \<lparr>f_fid = MAKE_FID (pf_hash f), f_hash = pf_hash f,
         f_name = bind_text (pf_name f) (pf_name_len f),
         f_ext = pub_ext e f,
         f_size = sint (pf_size f),
         f_type = uint (pf_type f),
         f_srcavail = 0, f_srccomplete = 0, f_rating = 0, f_rated_count = 0,
         f_mlength = sint (pf_media_length f),
         f_mbitrate = sint (pf_media_bitrate f),
         f_mcodec = Some (bind_text (pf_media_codec f) (pf_media_codec_len f))\<rparr>"
  have new: "f_fid new = ?k" "f_srcavail new = 0" "f_srccomplete new = 0" "f_rating new = 0"
    by (simp_all add: new_def)
  have eq: "share_ins e f d = d\<lparr>files := files d @ [new], fnames := fnames d @ [(?k, f_name new)], changes := 1\<rparr>"
    unfolding share_ins_def new_def[symmetric] by (simp add: insert_files_def files_fts4_def keep new)
  have a: "aggregates_ok (share_ins e f d)"
    using agg new nosrc unfolding aggregates_ok_iff eq by (auto simp: agg_row_def sources_of_def)
  have b: "no_orphans (share_ins e f d)"
    using no unfolding no_orphans_def eq by auto
  have c: "complete01 (share_ins e f d)"
    using c01 unfolding complete01_def eq by simp
  have dd: "fnames_sub (share_ins e f d)"
    using fs new unfolding fnames_sub_def eq by auto
  have ee: "nonzero_except {?k} (share_ins e f d)"
    using nz new unfolding nonzero_except_def eq by auto
  have "?k \<in> f_fid ` set (files (share_ins e f d))" using new unfolding eq by force
  then show ?thesis using a b c dd ee by (simp add: wf_db_def)
qed

lemma share_src_inv:
  assumes "wf_db d" "nonzero_except {MAKE_FID (pf_hash f)} d"
    "MAKE_FID (pf_hash f) \<in> f_fid ` set (files d)"
  shows "db_inv (share_src f owner d)"
  unfolding share_src_def
  using insert_sources_inv[of d "\<lparr>s_fid = MAKE_FID (pf_hash f), s_sid = MAKE_SID owner,
         s_complete = of_bool (pf_complete f), s_rating = sint (pf_rating f)\<rparr>"] assms
  by simp

lemma exec_stmt_True:
  "exec_stmt run d = (True, d') \<Longrightarrow> \<exists>x. d' = run (d\<lparr>rc_script := x\<rparr>)"
proof (cases "rc_script d")
  case Nil
  assume "exec_stmt run d = (True, d')"
  with Nil have "d' = run d" by (simp add: exec_stmt_def)
  moreover from Nil have "d\<lparr>rc_script := []\<rparr> = d" by simp
  ultimately show ?thesis by metis
next
  case (Cons b bs)
  assume "exec_stmt run d = (True, d')"
  with Cons have "d' = run (d\<lparr>rc_script := bs\<rparr>)"
    by (simp add: exec_stmt_def split: if_splits)
  then show ?thesis by blast
qed

lemma share_entry_inv:
  assumes iv: "db_inv d" and ok: "share_entry e f owner d = (True, d')"
  shows "db_inv d'"
proof -
  let ?k = "MAKE_FID (pf_hash f)"
  obtain ok1 d1 where s1: "exec_stmt (share_upd e f) d = (ok1, d1)" by (cases "exec_stmt (share_upd e f) d")
  with ok have ok1: "ok1" by (auto simp: share_entry_def Let_def split: if_splits prod.splits)
  with s1 have "exec_stmt (share_upd e f) d = (True, d1)" by simp
  then obtain x where d1: "d1 = share_upd e f (d\<lparr>rc_script := x\<rparr>)"
    using exec_stmt_True by blast
  have iv1: "db_inv d1" and ch: "changes d1 = 0 \<longleftrightarrow> ?k \<notin> f_fid ` set (files d1)"
    unfolding d1 using share_upd_inv[of "d\<lparr>rc_script := x\<rparr>" e f] iv by simp_all
  show ?thesis
  proof (cases "changes d1 = 0")
    case True
    obtain ok2 d2 where s2: "exec_stmt (share_ins e f) d1 = (ok2, d2)" by (cases "exec_stmt (share_ins e f) d1")
    with ok s1 ok1 True have ok2: "ok2" and s3: "exec_stmt (share_src f owner) d2 = (True, d')"
      by (auto simp: share_entry_def Let_def split: if_splits prod.splits)
    from s2 ok2 have "exec_stmt (share_ins e f) d1 = (True, d2)" by simp
    then obtain y where d2: "d2 = share_ins e f (d1\<lparr>rc_script := y\<rparr>)"
      using exec_stmt_True by blast
    have kout: "?k \<notin> f_fid ` set (files (d1\<lparr>rc_script := y\<rparr>))" using ch True by simp
    have p2: "wf_db d2" "nonzero_except {?k} d2" "?k \<in> f_fid ` set (files d2)"
      unfolding d2 using share_ins_inv[OF _ kout, of e] iv1 by simp_all
    from s3 obtain z where d': "d' = share_src f owner (d2\<lparr>rc_script := z\<rparr>)"
      using exec_stmt_True by blast
    show ?thesis unfolding d' using share_src_inv[of "d2\<lparr>rc_script := z\<rparr>" f owner] p2 by simp
  next
    case False
    with ok s1 ok1 have s3: "exec_stmt (share_src f owner) d1 = (True, d')"
      by (auto simp: share_entry_def Let_def split: if_splits prod.splits)
    from s3 obtain z where d': "d' = share_src f owner (d1\<lparr>rc_script := z\<rparr>)"
      using exec_stmt_True by blast
    from iv1 have "wf_db d1" "nonzero_except {?k} d1"
      by (auto simp: db_inv_def nonzero_except_def)
    moreover from ch False have "?k \<in> f_fid ` set (files d1)" by simp
    ultimately show ?thesis
      unfolding d' using share_src_inv[of "d1\<lparr>rc_script := z\<rparr>" f owner] by simp
  qed
qed

subsection \<open>Calls and histories\<close>

lemma db_share_files_inv:
  "db_inv d \<Longrightarrow> db_share_files e d fs owner = (1, d') \<Longrightarrow> db_inv d'"
proof (induction fs arbitrary: d)
  case Nil
  then show ?case by simp
next
  case (Cons f fs)
  show ?case
  proof (cases "pf_name_len f = 0")
    case True
    with Cons show ?thesis by simp
  next
    case False
    obtain ok d1 where se: "share_entry e f owner d = (ok, d1)" by (cases "share_entry e f owner d")
    with Cons.prems(2) False have ok: ok and rest: "db_share_files e d1 fs owner = (1, d')"
      by (auto split: bool.splits)
    from se ok have "share_entry e f owner d = (True, d1)" by simp
    with Cons.prems(1) have "db_inv d1" using share_entry_inv by blast
    with rest show ?thesis using Cons.IH by blast
  qed
qed

lemma apply_call_inv:
  "db_inv d \<Longrightarrow> apply_call e c d = (1, d') \<Longrightarrow> db_inv d'"
  by (cases c) (auto dest: db_share_files_inv db_remove_source_inv)

lemma run_calls_inv:
  "db_inv d \<Longrightarrow> run_calls e cs d = Some d' \<Longrightarrow> db_inv d'"
proof (induction cs arbitrary: d)
  case Nil
  then show ?case by simp
next
  case (Cons c cs)
  then show ?case
    by (auto split: prod.splits if_splits dest: apply_call_inv)
qed

lemma db_create_inv: "db_create sc = Some d \<Longrightarrow> db_inv d"
  by (auto simp: db_create_def db_inv_def wf_db_def aggregates_ok_def no_orphans_def complete01_def
      fnames_sub_def nonzero_except_def split: list.splits bool.splits)

lemma reachable_inv:
  "db_create sc = Some d0 \<Longrightarrow> run_calls e cs d0 = Some d \<Longrightarrow> db_inv d"
  using db_create_inv run_calls_inv by blast

lemma run_calls_take:
  "run_calls e cs d0 = Some d \<Longrightarrow> \<exists>d'. run_calls e (take n cs) d0 = Some d'"
proof (induction cs arbitrary: d0 n)
  case Nil
  then show ?case by simp
next
  case (Cons c cs)
  show ?case
  proof (cases n)
    case 0
    then show ?thesis by simp
  next
    case (Suc m)
    with Cons show ?thesis by (auto split: prod.splits if_splits)
  qed
qed

subsection \<open>The example history\<close>

lemmas ex_defs = ex_env_def ex_file_a_def ex_file_a0_def ex_file_b_def ex_peer1_def ex_peer2_def ex_db0_def ex_calls_def

lemmas ex2_defs = ex_empty_def ex_leaf_def ex_op_def ex_term_heap_def ex_tree_heap_def ex_tree_def
  ex_dup_heap_def ex_one_heap_def

lemmas cat_defs = db_create_def share_entry_def exec_stmt_def share_upd_def share_ins_def share_src_def
   update_files_def insert_files_def insert_sources_def sources_ai_def sources_bd_def files_fts4_def files_au_def files_fts1_def files_fts2_def
   files_fts3_def delete_files_def delete_sources_def delete_sources_row_def remove_src_def db_remove_source_def
   Let_def MAKE_FID_def MAKE_SID_def sdbm_def pub_ext_def bind_text_def

lemmas walk_defs = walk.simps walk_step_def is_operator_def params0_def add_term_def leaf_visit_def MAX_NAME_TERM_LEN_def
    oper_def oper_width_def strncat_def

lemmas sem_defs = paren_def is_operator_def params0_def add_term_def leaf_visit_def MAX_NAME_TERM_LEN_def
    oper_def oper_width_def strncat_def

lemmas query_defs = db_search_files_def run_query_def search_select_def docid_order_def row_passes_def match_text_def sql_limit_def
   int_of_size_def result_of_def first_sid_def sources_of_def column_int_def column_bytes_def GET_SID_ID_def GET_SID_PORT_def
   exec_stmt_def Let_def


lemma ex_db3_eq: "run_calls ex_env ex_calls ex_db0 = Some ex_db3"
  by (simp add: ex_db3_def ex_defs cat_defs)

subsection \<open>Aggregates\<close>

text \<open>
  Claim C1. For every history of \<^verbatim>\<open>db_share_files\<close> and \<^verbatim>\<open>db_remove_source\<close> calls
  that succeed, starting from the catalog \<^verbatim>\<open>db_create\<close> leaves, after each call (after
  every prefix \<open>take n cs\<close> of the history) every file row's \<^verbatim>\<open>srcavail\<close> is the number
  of source rows with its \<^verbatim>\<open>fid\<close>, its \<^verbatim>\<open>srccomplete\<close> is the number of those with
  \<^verbatim>\<open>complete\<close> set, and its \<^verbatim>\<open>rating\<close> is the sum of their ratings.
\<close>

theorem aggregates_after_each_call:
  assumes "db_create sc = Some d0" and "run_calls e cs d0 = Some d"
  shows "\<exists>d'. run_calls e (take n cs) d0 = Some d' \<and> aggregates_ok d'"
proof -
  from run_calls_take[OF assms(2)] obtain d' where d': "run_calls e (take n cs) d0 = Some d'"
    by blast
  with assms(1) have "db_inv d'" by (rule reachable_inv)
  then have "aggregates_ok d'" by (simp add: db_inv_def wf_db_def)
  with d' show ?thesis by blast
qed

text \<open>
  The example history: two files shared by one peer, one of them shared again by a
  second peer, then the first peer removed; the aggregates hold after the second call.
\<close>

theorem aggregates_after_each_call_witness:
  "db_create [] = Some ex_db0 \<and> run_calls ex_env ex_calls ex_db0 = Some ex_db3 \<and>
   (\<exists>d'. run_calls ex_env (take 2 ex_calls) ex_db0 = Some d' \<and> aggregates_ok d')"
proof -
  have a: "db_create [] = Some ex_db0" by (simp add: db_create_def ex_db0_def)
  from aggregates_after_each_call[OF a ex_db3_eq, of 2] a ex_db3_eq show ?thesis by simp
qed

text \<open>
  Claim C2 says that inserting a source row with rating 0 leaves \<^verbatim>\<open>rated_count\<close>
  unchanged, so that \<^verbatim>\<open>rated_count\<close> is always the number of source rows with a
  non-zero rating. The insert trigger writes \<^verbatim>\<open>ELSE 0\<close> where the delete trigger writes
  \<^verbatim>\<open>ELSE rated_count\<close>: a file shared with rating 5 and then, by another peer, with
  rating 0 has one rated source row and \<^verbatim>\<open>rated_count\<close> 0; when the first peer then
  leaves, the delete trigger takes the counter to -1.
\<close>

theorem rated_count_reset_by_zero_rating:
  "(\<exists>d. run_calls ex_env [Share [ex_file_a] ex_peer1, Share [ex_file_a0] ex_peer2] ex_db0 = Some d \<and>
      map s_rating (sources d) = [5, 0] \<and> map f_rated_count (files d) = [0] \<and> \<not> rated_ok d) \<and>
   (\<exists>d. run_calls ex_env [Share [ex_file_a] ex_peer1, Share [ex_file_a0] ex_peer2, Remove ex_peer1]
          ex_db0 = Some d \<and>
      map s_rating (sources d) = [0] \<and> map f_rated_count (files d) = [- 1])"
  by (simp add: ex_defs ex2_defs cat_defs rated_ok_def sources_of_def)

subsection \<open>Entries without a name\<close>

lemma share_skip_empty:
  "db_share_files e d fs owner = db_share_files e d (filter (\<lambda>f. pf_name_len f \<noteq> 0) fs) owner"
proof (induction fs arbitrary: d)
  case Nil
  show ?case by simp
next
  case (Cons f fs)
  show ?case
  proof (cases "pf_name_len f = 0")
    case True
    then show ?thesis using Cons.IH by simp
  next
    case False
    then show ?thesis using Cons.IH by (simp split: prod.splits bool.splits)
  qed
qed

text \<open>
  Claim C8. An announcement whose name length is zero is skipped without error: the
  call does exactly what it does on the batch without such entries (no file row, no
  source row, no aggregate change comes from them, and the entries after them are
  processed), and a batch of such entries only returns 1 and leaves the catalog as it
  was.
\<close>

theorem empty_names_skipped:
  "db_share_files e d fs owner = db_share_files e d (filter (\<lambda>f. pf_name_len f \<noteq> 0) fs) owner \<and>
   (list_all (\<lambda>f. pf_name_len f = 0) fs \<longrightarrow> db_share_files e d fs owner = (1, d))"
proof (intro conjI impI)
  show "db_share_files e d fs owner = db_share_files e d (filter (\<lambda>f. pf_name_len f \<noteq> 0) fs) owner"
    by (rule share_skip_empty)
next
  assume "list_all (\<lambda>f. pf_name_len f = 0) fs"
  then have "filter (\<lambda>f. pf_name_len f \<noteq> 0) fs = []"
    by (simp add: list_all_iff filter_empty_conv)
  then show "db_share_files e d fs owner = (1, d)"
    using share_skip_empty[of e d fs owner] by simp
qed

text \<open>A batch of two nameless entries, and a named entry between two nameless ones.\<close>

theorem empty_names_skipped_witness:
  "list_all (\<lambda>f. pf_name_len f = 0) [ex_empty, ex_empty] \<and>
   db_share_files ex_env ex_db0 [ex_empty, ex_empty] ex_peer1 = (1, ex_db0) \<and>
   db_share_files ex_env ex_db0 [ex_empty, ex_file_a, ex_empty] ex_peer1 =
     db_share_files ex_env ex_db0 [ex_file_a] ex_peer1"
proof -
  have a: "list_all (\<lambda>f. pf_name_len f = 0) [ex_empty, ex_empty]" by (simp add: ex_empty_def)
  have b: "filter (\<lambda>f. pf_name_len f \<noteq> 0) [ex_empty, ex_file_a, ex_empty] = [ex_file_a]"
    by (simp add: ex_empty_def ex_file_a_def)
  from empty_names_skipped[of ex_env ex_db0 "[ex_empty, ex_empty]" ex_peer1]
    empty_names_skipped[of ex_env ex_db0 "[ex_empty, ex_file_a, ex_empty]" ex_peer1] a b
  show ?thesis by simp
qed

section \<open>Search executor: properties\<close>

subsection \<open>The limit and the stepping loop\<close>

lemma int_of_size_small: "n < 2 ^ 31 \<Longrightarrow> int_of_size n = int n"
  unfolding int_of_size_def
  by (simp add: signed_of_nat signed_take_bit_int_eq_self)

lemma int_of_size_neg: "2 ^ 31 \<le> n \<Longrightarrow> n < 2 ^ 32 \<Longrightarrow> int_of_size n < 0"
proof -
  assume a: "2 ^ 31 \<le> n" "n < 2 ^ 32"
  then have "(2::int) ^ 31 \<le> int n" by (metis of_nat_le_iff of_nat_numeral of_nat_power)
  then have "signed_take_bit 31 (int n) \<le> int n - 2 ^ Suc 31"
    by (rule signed_take_bit_int_less_eq)
  then have a1: "signed_take_bit 31 (int n) \<le> int n - 4294967296" by simp
  from a(2) have a2: "int n < 4294967296" by simp
  from a1 a2 have neg: "signed_take_bit 31 (int n) < 0" by linarith
  have "int_of_size n = signed_take_bit 31 (int n)"
    unfolding int_of_size_def by (simp add: signed_of_nat)
  with neg show ?thesis by (simp only:)
qed

lemma sql_limit_size:
  "count < 2 ^ 32 \<Longrightarrow> take count (sql_limit (int_of_size count) rows) = take count rows"
proof (cases "count < 2 ^ 31")
  case True
  then show ?thesis by (simp add: sql_limit_def int_of_size_small)
next
  case False
  assume "count < 2 ^ 32"
  with False have "int_of_size count < 0" by (simp add: int_of_size_neg)
  then show ?thesis by (simp add: sql_limit_def)
qed

lemma sql_limit_length:
  "count < 2 ^ 32 \<Longrightarrow> min count (length (sql_limit (int_of_size count) rows)) = min count (length rows)"
proof (cases "count < 2 ^ 31")
  case True
  then show ?thesis by (simp add: sql_limit_def int_of_size_small)
next
  case False
  assume "count < 2 ^ 32"
  with False have "int_of_size count < 0" by (simp add: int_of_size_neg)
  then show ?thesis by (simp add: sql_limit_def)
qed


lemma step_rows_success:
  "step_rows cnt rows sc i out = (err, i', out', sc') \<Longrightarrow> i' = cnt \<or> err = SQLITE_DONE \<Longrightarrow>
   i \<le> cnt \<Longrightarrow> i' = min cnt (i + length rows) \<and> out' = out @ take (i' - i) rows"
proof (induction rows arbitrary: sc i out)
  case Nil
  then show ?case by (auto split: list.splits bool.splits)
next
  case (Cons r rs)
  show ?case
  proof (cases "(case sc of False # bs \<Rightarrow> True | _ \<Rightarrow> False) \<or> \<not> i < cnt")
    case True
    with Cons.prems have "out' = out \<and> i' = i \<and> err \<noteq> SQLITE_DONE"
      by (auto split: list.splits bool.splits if_splits)
    with Cons.prems show ?thesis by auto
  next
    case False
    with Cons.prems have st: "step_rows cnt rs (tl sc) (Suc i) (out @ [r]) = (err, i', out', sc')"
      by (auto split: list.splits bool.splits if_splits)
    from False have "Suc i \<le> cnt" by simp
    from Cons.IH[OF st Cons.prems(2) this]
    have r: "i' = min cnt (Suc i + length rs)" "out' = (out @ [r]) @ take (i' - Suc i) rs" by simp_all
    from r(1) \<open>Suc i \<le> cnt\<close> have "i' - i = Suc (i' - Suc i)" by simp
    with r show ?thesis by simp
  qed
qed

lemma search_select_frame [simp]:
  "search_select e (d\<lparr>rc_script := x\<rparr>) h ps = search_select e d h ps"
  by (simp add: search_select_def cong: if_cong option.case_cong)

lemma result_of_frame [simp]:
  "result_of e (d\<lparr>rc_script := x\<rparr>) = result_of e d"
  by (rule ext) (simp add: result_of_def first_sid_def)

lemma exec_stmt_id:
  "exec_stmt (\<lambda>x. x) d = (ok, d1) \<Longrightarrow> \<exists>x. d1 = d\<lparr>rc_script := x\<rparr>"
proof (cases "rc_script d")
  case Nil
  assume "exec_stmt (\<lambda>x. x) d = (ok, d1)"
  with Nil have "d1 = d" by (simp add: exec_stmt_def)
  moreover from Nil have "d\<lparr>rc_script := []\<rparr> = d" by simp
  ultimately show ?thesis by metis
next
  case (Cons b bs)
  assume "exec_stmt (\<lambda>x. x) d = (ok, d1)"
  with Cons have "d1 = d\<lparr>rc_script := bs\<rparr>"
    by (simp add: exec_stmt_def split: if_splits)
  then show ?thesis by blast
qed


lemma matching_rows_frame [simp]:
  "matching_rows e (d\<lparr>rc_script := x\<rparr>) h ps = matching_rows e d h ps"
  by (simp add: matching_rows_def)

lemma run_query_success:
  assumes ok: "so_ret (run_query e d h ps buf count) = 1" and small: "count < 2 ^ 32"
  shows "so_count (run_query e d h ps buf count) = min count (length (matching_rows e d h ps)) \<and>
     so_buf (run_query e d h ps buf count) =
       buf @ map (result_of e d) (take (min count (length (matching_rows e d h ps))) (matching_rows e d h ps))"
proof -
  obtain ok1 d1 where ex: "exec_stmt (\<lambda>x. x) d = (ok1, d1)" by (cases "exec_stmt (\<lambda>x. x) d")
  then obtain x where d1: "d1 = d\<lparr>rc_script := x\<rparr>" using exec_stmt_id by blast
  from ok ex have ok1: ok1 by (cases ok1) (simp_all add: run_query_def)
  show ?thesis
  proof (cases "search_select e d h ps")
    case None
    with ok ex ok1 d1 have "count = 0"
      by (simp add: run_query_def split: if_splits)
    with None ex ok1 d1 show ?thesis by (simp add: run_query_def matching_rows_def)
  next
    case (Some sel)
    let ?rows = "sql_limit (int_of_size count) sel"
    obtain err i out sc where st: "step_rows count ?rows (rc_script d1) 0 [] = (err, i, out, sc)"
      by (cases "step_rows count ?rows (rc_script d1) 0 []") auto
    from ok ex ok1 d1 Some st have good: "i = count \<or> err = SQLITE_DONE"
      by (simp add: run_query_def Let_def split: if_splits)
    from step_rows_success[OF st good]
    have i: "i = min count (length ?rows)" and out: "out = take i ?rows" by simp_all
    from i have i': "i = min count (length sel)" using sql_limit_length[OF small] by simp
    have ic: "min i count = i" using i by simp
    have "take i ?rows = take i (take count ?rows)" by (simp only: take_take ic)
    also have "\<dots> = take i (take count sel)" by (simp only: sql_limit_size[OF small])
    also have "\<dots> = take i sel" by (simp only: take_take ic)
    finally have out': "out = take i sel" using out by simp
    from ex ok1 d1 Some st good have
      "so_count (run_query e d h ps buf count) = i"
      "so_buf (run_query e d h ps buf count) = buf @ map (result_of e d) out"
      by (simp_all add: run_query_def Let_def)
    with i' out' Some show ?thesis by (simp add: matching_rows_def)
  qed
qed



lemma walk_None [simp]: "walk None h ps = Some (WDone h ps)"
  by (subst walk.simps) simp

subsection \<open>The number of results\<close>

text \<open>
  Claim C5 says that every successful call with requested maximum \<open>N\<close> against a
  catalog with \<open>M\<close> matching files writes exactly \<open>min N M\<close> records. The maximum is a
  \<^verbatim>\<open>size_t\<close>, and \<^verbatim>\<open>sqlite3_bind_int\<close> binds its low 32 bits to \<^verbatim>\<open>LIMIT\<close>: with two
  matching files and a requested maximum of \<open>2 ^ 32\<close> the statement runs under
  \<^verbatim>\<open>LIMIT 0\<close>, the call returns 1, writes no record and sets the count to 0.
\<close>

theorem search_limit_low_bits_only:
  "\<exists>r. db_search_files ex_env ex_db2 (ex_term_heap ''song'') (Some 0) [] (2 ^ 32) = Some r \<and>
     so_ret r = 1 \<and> so_count r = 0 \<and> so_buf r = [] \<and>
     length (matching_rows ex_env ex_db2 (ex_term_heap ''song'')
               (params0\<lparr>name_len := 4, name_term := ''song''\<rparr>)) = 2 \<and>
     min (2 ^ 32) (length (matching_rows ex_env ex_db2 (ex_term_heap ''song'')
               (params0\<lparr>name_len := 4, name_term := ''song''\<rparr>))) \<noteq> so_count r"
proof -
  have w: "walk (Some 0) (ex_term_heap ''song'') params0 =
      Some (WDone (ex_term_heap ''song'') (params0\<lparr>name_len := 4, name_term := ''song''\<rparr>))"
    by (simp add: ex2_defs walk_defs)
  have m: "length (matching_rows ex_env ex_db2 (ex_term_heap ''song'')
               (params0\<lparr>name_len := 4, name_term := ''song''\<rparr>)) = 2"
    by (simp add: matching_rows_def ex_db2_def ex_defs cat_defs query_defs params0_def)
  have z: "int_of_size (2 ^ 32) = 0" by (simp add: int_of_size_def)
  have r: "so_ret (run_query ex_env ex_db2 (ex_term_heap ''song'')
               (params0\<lparr>name_len := 4, name_term := ''song''\<rparr>) [] (2 ^ 32)) = 1 \<and>
           so_count (run_query ex_env ex_db2 (ex_term_heap ''song'')
               (params0\<lparr>name_len := 4, name_term := ''song''\<rparr>) [] (2 ^ 32)) = 0 \<and>
           so_buf (run_query ex_env ex_db2 (ex_term_heap ''song'')
               (params0\<lparr>name_len := 4, name_term := ''song''\<rparr>) [] (2 ^ 32)) = []"
    unfolding run_query_def z
    by (simp add: ex_db2_def ex_defs cat_defs search_select_def exec_stmt_def sql_limit_def Let_def)
  from w m r show ?thesis by (simp add: db_search_files_def)
qed

text \<open>
  Claim C5, for a requested maximum below \<open>2 ^ 32\<close> (the specification types the limit
  as u32). For every call of \<^verbatim>\<open>db_search_files\<close> that returns 1, with requested maximum
  \<open>count\<close> against a catalog with \<open>M\<close> matching files, exactly \<open>min count M\<close> result
  records are written to the buffer, they are the first matching rows, and that number
  is written back through the count parameter.
\<close>

theorem search_count_is_min:
  assumes "db_search_files e d h snode buf count = Some r" and "so_ret r = 1"
    and "count < 2 ^ 32"
  shows "\<exists>h1 ps. walk snode h params0 = Some (WDone h1 ps) \<and>
     so_count r = min count (length (matching_rows e d h1 ps)) \<and>
     so_buf r = buf @ map (result_of e d)
        (take (min count (length (matching_rows e d h1 ps))) (matching_rows e d h1 ps))"
proof (cases "walk snode h params0")
  case None
  with assms(1) show ?thesis by (simp add: db_search_files_def)
next
  case (Some w)
  show ?thesis
  proof (cases w)
    case (WFailed h1)
    with Some assms(1,2) show ?thesis by (auto simp add: db_search_files_def)
  next
    case (WDone h1 ps)
    with Some assms(1) have r: "r = run_query e d h1 ps buf count"
      by (simp add: db_search_files_def)
    from run_query_success[of e d h1 ps buf count] assms(2,3) r Some WDone
    show ?thesis by simp
  qed
qed

text \<open>
  Two files in the catalog, both matching, and a requested maximum of 1: the one record
  written is that of the row with the smaller document id.
\<close>

theorem search_count_is_min_witness:
  "db_search_files ex_env ex_db2 (ex_term_heap ''song'') (Some 0) [] 1 = Some ex_out \<and>
   so_ret ex_out = 1 \<and> (1::nat) < 2 ^ 32 \<and>
   length (files ex_db2) = 2 \<and> so_count ex_out = 1 \<and>
   map sf_name (so_buf ex_out) = [''film.avi''] \<and>
   (\<exists>h1 ps. walk (Some 0) (ex_term_heap ''song'') params0 = Some (WDone h1 ps) \<and>
       so_count ex_out = min 1 (length (matching_rows ex_env ex_db2 h1 ps)) \<and>
       so_buf ex_out = [] @ map (result_of ex_env ex_db2)
          (take (min 1 (length (matching_rows ex_env ex_db2 h1 ps)))
             (matching_rows ex_env ex_db2 h1 ps)))"
proof -
  have w: "walk (Some 0) (ex_term_heap ''song'') params0 =
      Some (WDone (ex_term_heap ''song'') (params0\<lparr>name_len := 4, name_term := ''song''\<rparr>))"
    by (simp add: ex2_defs walk_defs)
  have a: "db_search_files ex_env ex_db2 (ex_term_heap ''song'') (Some 0) [] 1 = Some ex_out"
    unfolding ex_out_def db_search_files_def w by simp
  have r: "so_ret ex_out = 1 \<and> so_count ex_out = 1 \<and>
      map sf_name (so_buf ex_out) = [''film.avi'']"
    unfolding ex_out_def db_search_files_def w
    by (simp add: ex_db2_def ex_defs cat_defs query_defs params0_def)
  have f: "length (files ex_db2) = 2" by (simp add: ex_db2_def ex_defs cat_defs)
  have s: "(1::nat) < 2 ^ 32" by simp
  from search_count_is_min[OF a _ s] r a f show ?thesis by simp
qed

subsection \<open>Files without sources\<close>



section \<open>Search compiler: properties\<close>

subsection \<open>Steps of the loop\<close>

lemma walk_Some:
  "h p = Some nd \<Longrightarrow>
   walk (Some p) h ps =
     (case walk_step p nd h ps of
        None \<Rightarrow> Some (WFailed h)
      | Some (q, h1, ps1) \<Rightarrow> walk q h1 ps1)"
  by (subst walk.simps) simp

lemma walk_leaf:
  "h a = Some nd \<Longrightarrow> \<not> is_operator (sn_type nd) \<Longrightarrow>
   walk (Some a) h ps =
     (case leaf_visit a nd ps of None \<Rightarrow> Some (WFailed h) | Some ps1 \<Rightarrow> walk (sn_parent nd) h ps1)"
  by (simp add: walk_Some walk_step_def split: option.splits)

lemma walk_open:
  "h a = Some nd \<Longrightarrow> is_operator (sn_type nd) \<Longrightarrow> \<not> sn_left_visited nd \<Longrightarrow>
   walk (Some a) h ps =
     (case paren nd 1 ''('' ps of
        None \<Rightarrow> Some (WFailed h)
      | Some ps1 \<Rightarrow> walk (sn_left nd) (h(a \<mapsto> nd\<lparr>sn_left_visited := True\<rparr>)) ps1)"
  by (simp add: walk_Some walk_step_def paren_def split: option.splits)

lemma walk_oper:
  "h a = Some nd \<Longrightarrow> is_operator (sn_type nd) \<Longrightarrow> sn_left_visited nd \<Longrightarrow>
   \<not> sn_right_visited nd \<Longrightarrow>
   walk (Some a) h ps =
     (case paren nd (oper_width (sn_type nd)) (oper (sn_type nd)) ps of
        None \<Rightarrow> Some (WFailed h)
      | Some ps1 \<Rightarrow> walk (sn_right nd) (h(a \<mapsto> nd\<lparr>sn_right_visited := True\<rparr>)) ps1)"
  by (simp add: walk_Some walk_step_def paren_def split: option.splits)

lemma walk_close:
  "h a = Some nd \<Longrightarrow> is_operator (sn_type nd) \<Longrightarrow> sn_left_visited nd \<Longrightarrow>
   sn_right_visited nd \<Longrightarrow>
   walk (Some a) h ps =
     (case paren nd 1 '')'' ps of
        None \<Rightarrow> Some (WFailed h)
      | Some ps1 \<Rightarrow> walk (sn_parent nd) h ps1)"
  by (simp add: walk_Some walk_step_def paren_def split: option.splits)

subsection \<open>Stores that agree on a tree\<close>

lemma op_addrs_subset: "set (op_addrs t) \<subseteq> set (addrs t)"
  by (induction t) auto

lemma mark_outside: "x \<notin> set (addrs t) \<Longrightarrow> mark t h x = h x"
  using op_addrs_subset[of t] by (auto simp: mark_def)

lemma tree_at_cong:
  "(\<And>x. x \<in> set (addrs t) \<Longrightarrow> h' x = h x) \<Longrightarrow> tree_at h' par t = tree_at h par t"
  by (induction t arbitrary: par) (auto split: option.splits)

lemma sem_cong:
  "(\<And>x. x \<in> set (addrs t) \<Longrightarrow> h' x = h x) \<Longrightarrow> sem h' t ps = sem h t ps"
proof (induction t arbitrary: ps)
  case (PLeaf a)
  then show ?case by simp
next
  case (POp a l r)
  have l: "sem h' l q = sem h l q" for q using POp by simp
  have r: "sem h' r q = sem h r q" for q using POp by simp
  have a: "h' a = h a" using POp.prems by simp
  show ?case by (simp add: a l r cong: option.case_cong)
qed

lemma tree_at_root: "tree_at h par t \<Longrightarrow> \<exists>nd. h (root t) = Some nd \<and> sn_parent nd = par"
  by (cases t) (auto split: option.splits)

lemma tree_at_ops:
  "tree_at h par t \<Longrightarrow> x \<in> set (op_addrs t) \<Longrightarrow> \<exists>nd. h x = Some nd"
  by (induction t arbitrary: par) (auto split: option.splits)

subsection \<open>The loop follows the recursion\<close>

lemma walk_specI_fail:
  "sem h t ps = None \<Longrightarrow> walk (Some (root t)) h ps = Some (WFailed h') \<Longrightarrow> walk_spec h par t ps"
  by (auto simp: walk_spec_def)

lemma walk_tree:
  "tree_at h par t \<Longrightarrow> distinct (addrs t) \<Longrightarrow> walk_spec h par t ps"
proof (induction t arbitrary: h par ps)
  case (PLeaf a h par ps)
  then obtain nd where nd: "h a = Some nd" "\<not> is_operator (sn_type nd)" "sn_parent nd = par"
    by (auto split: option.splits)
  have "mark (PLeaf a) h = h" by (simp add: mark_def)
  then show ?case
    using nd by (auto simp: walk_spec_def walk_leaf split: option.splits)
next
  case (POp a l r h par ps)
  from POp.prems(1) obtain nd where nd: "h a = Some nd" and op: "is_operator (sn_type nd)"
    and par: "sn_parent nd = par" and lv: "\<not> sn_left_visited nd" and rv: "\<not> sn_right_visited nd"
    and lft: "sn_left nd = Some (root l)" and rgt: "sn_right nd = Some (root r)"
    and tl: "tree_at h (Some a) l" and tr: "tree_at h (Some a) r"
    by (auto split: option.splits)
  from POp.prems(2) have al: "a \<notin> set (addrs l)" and ar: "a \<notin> set (addrs r)"
    and dl: "distinct (addrs l)" and dr: "distinct (addrs r)"
    and lr: "set (addrs l) \<inter> set (addrs r) = {}"
    by auto
  let ?t = "POp a l r"
  let ?nd1 = "nd\<lparr>sn_left_visited := True\<rparr>"
  let ?h1 = "h(a \<mapsto> ?nd1)"
  let ?nd2 = "?nd1\<lparr>sn_right_visited := True\<rparr>"
  have root: "root ?t = a" by simp
  show ?case
  proof (cases "paren nd 1 ''('' ps")
    case None
    then have "sem h ?t ps = None" using nd by simp
    moreover have "walk (Some a) h ps = Some (WFailed h)"
      using walk_open[of h a nd ps, OF nd op lv] None by simp
    ultimately show ?thesis using walk_specI_fail[of h ?t ps h par] by simp
  next
    case (Some ps1)
    have w1: "walk (Some a) h ps = walk (Some (root l)) ?h1 ps1"
      using walk_open[of h a nd ps, OF nd op lv] Some lft by simp
    have h1l: "\<And>x. x \<in> set (addrs l) \<Longrightarrow> ?h1 x = h x" using al by auto
    have tl1: "tree_at ?h1 (Some a) l" using tree_at_cong[of l ?h1 h, OF h1l] tl by simp
    have sl1: "sem ?h1 l ps1 = sem h l ps1" using sem_cong[of l ?h1 h, OF h1l] by simp
    have ih_l: "walk_spec ?h1 (Some a) l ps1" by (rule POp.IH(1)[OF tl1 dl])
    show ?thesis
    proof (cases "sem h l ps1")
      case None
      with ih_l sl1 obtain h' where "walk (Some (root l)) ?h1 ps1 = Some (WFailed h')"
        by (auto simp: walk_spec_def)
      with w1 have "walk (Some a) h ps = Some (WFailed h')" by simp
      moreover have "sem h ?t ps = None" using nd Some None by simp
      ultimately show ?thesis using walk_specI_fail[of h ?t ps h' par] by simp
    next
      case (Some ps2)
      note ps2 = this
      let ?hl = "mark l ?h1"
      have w2: "walk (Some (root l)) ?h1 ps1 = walk (Some a) ?hl ps2"
        using ih_l sl1 ps2 by (simp add: walk_spec_def)
      have hla: "?hl a = Some ?nd1" using mark_outside[OF al, of ?h1] by simp
      let ?h2 = "?hl(a \<mapsto> ?nd2)"
      show ?thesis
      proof (cases "paren nd (oper_width (sn_type nd)) (oper (sn_type nd)) ps2")
        case None
        then have "paren ?nd1 (oper_width (sn_type ?nd1)) (oper (sn_type ?nd1)) ps2 = None"
          by (simp add: paren_def)
        then have "walk (Some a) ?hl ps2 = Some (WFailed ?hl)"
          using walk_oper[of ?hl a ?nd1 ps2, OF hla] op rv by simp
        with w1 w2 have "walk (Some a) h ps = Some (WFailed ?hl)" by simp
        moreover have "sem h ?t ps = None" using nd \<open>paren nd 1 ''('' ps = Some ps1\<close> ps2 None by simp
        ultimately show ?thesis using walk_specI_fail[of h ?t ps ?hl par] by simp
      next
        case (Some ps3)
        note ps3 = this
        then have "paren ?nd1 (oper_width (sn_type ?nd1)) (oper (sn_type ?nd1)) ps2 = Some ps3"
          by (simp add: paren_def)
        then have w3: "walk (Some a) ?hl ps2 = walk (Some (root r)) ?h2 ps3"
          using walk_oper[of ?hl a ?nd1 ps2, OF hla] op rv rgt by simp
        have h2r: "\<And>x. x \<in> set (addrs r) \<Longrightarrow> ?h2 x = h x"
        proof -
          fix x assume x: "x \<in> set (addrs r)"
          then have "x \<noteq> a" "x \<notin> set (addrs l)" using ar lr by auto
          then show "?h2 x = h x" using mark_outside[of x l ?h1] by simp
        qed
        have tr2: "tree_at ?h2 (Some a) r" using tree_at_cong[of r ?h2 h, OF h2r] tr by simp
        have sr2: "sem ?h2 r ps3 = sem h r ps3" using sem_cong[of r ?h2 h, OF h2r] by simp
        have ih_r: "walk_spec ?h2 (Some a) r ps3" by (rule POp.IH(2)[OF tr2 dr])
        show ?thesis
        proof (cases "sem h r ps3")
          case None
          with ih_r sr2 obtain h' where "walk (Some (root r)) ?h2 ps3 = Some (WFailed h')"
            by (auto simp: walk_spec_def)
          with w1 w2 w3 have "walk (Some a) h ps = Some (WFailed h')" by simp
          moreover have "sem h ?t ps = None"
            using nd \<open>paren nd 1 ''('' ps = Some ps1\<close> ps2 ps3 None by simp
          ultimately show ?thesis using walk_specI_fail[of h ?t ps h' par] by simp
        next
          case (Some ps4)
          note ps4 = this
          let ?hr = "mark r ?h2"
          have w4: "walk (Some (root r)) ?h2 ps3 = walk (Some a) ?hr ps4"
            using ih_r sr2 ps4 by (simp add: walk_spec_def)
          have hra: "?hr a = Some ?nd2" using mark_outside[OF ar, of ?h2] by simp
          have w5: "walk (Some a) ?hr ps4 =
              (case paren nd 1 '')'' ps4 of None \<Rightarrow> Some (WFailed ?hr)
               | Some ps5 \<Rightarrow> walk par ?hr ps5)"
            using walk_close[of ?hr a ?nd2 ps4, OF hra] op par
            by (simp add: paren_def cong: option.case_cong)
          have semt: "sem h ?t ps = paren nd 1 '')'' ps4"
            using nd \<open>paren nd 1 ''('' ps = Some ps1\<close> ps2 ps3 ps4 by simp
          have fin: "?hr = mark ?t h"
          proof
            fix x
            show "?hr x = mark ?t h x"
            proof (cases "x = a")
              case True
              then show ?thesis using hra nd by (simp add: mark_def)
            next
              case False
              note xa = this
              show ?thesis
              proof (cases "x \<in> set (addrs r)")
                case True
                then have "x \<notin> set (addrs l)" using lr by auto
                then have "x \<notin> set (op_addrs l)" using op_addrs_subset[of l] by auto
                moreover have "?h2 x = h x" using h2r True by simp
                ultimately show ?thesis using xa by (simp add: mark_def)
              next
                case False
                then have xr: "x \<notin> set (op_addrs r)" using op_addrs_subset[of r] by auto
                have "?hr x = ?h2 x" using mark_outside[OF False, of ?h2] by simp
                also have "\<dots> = ?hl x" using xa by simp
                also have "\<dots> = mark ?t h x" using xa xr by (simp add: mark_def)
                finally show ?thesis .
              qed
            qed
          qed
          show ?thesis
            using w1 w2 w3 w4 w5 semt fin
            by (auto simp: walk_spec_def split: option.splits)
        qed
      qed
    qed
  qed
qed

lemma walk_root:
  assumes "tree_at h None t" "distinct (addrs t)"
  shows "walk (Some (root t)) h ps =
     (case sem h t ps of
        None \<Rightarrow> walk (Some (root t)) h ps
      | Some ps' \<Rightarrow> Some (WDone (mark t h) ps'))"
    and "sem h t ps = None \<Longrightarrow> \<exists>h'. walk (Some (root t)) h ps = Some (WFailed h')"
  using walk_tree[OF assms, of ps] by (auto simp: walk_spec_def split: option.splits)

subsection \<open>Text and length\<close>

text \<open>
  The compiled query always fits its buffer of \<open>MAX_SEARCH_QUERY_LEN + 1\<close> bytes, and
  the text a tree renders to is never longer than the length the code counts for it.
\<close>

lemma query_fits: "length (query ps) \<le> MAX_SEARCH_QUERY_LEN"
  by (simp add: query_def base_query_def clauses_def MAX_SEARCH_QUERY_LEN_def)

lemma oper_length: "length (oper t) = oper_width t"
  by (simp add: oper_def oper_width_def)

lemma term_text_length: "length (term_text nd) \<le> sn_str_len nd"
proof -
  have "length (takeWhile (\<lambda>c. c \<noteq> CHR 0x00) (take (sn_str_len nd) (sn_str_val nd)))
      \<le> length (take (sn_str_len nd) (sn_str_val nd))"
    by (rule length_takeWhile_le)
  then show ?thesis by (simp add: term_text_def)
qed

lemma render_length_le: "length (render h t) \<le> rlen h t"
proof (induction t)
  case (PLeaf a)
  show ?case using term_text_length by (auto split: option.splits)
next
  case (POp a l r)
  then show ?case by (auto split: option.splits simp: oper_length)
qed

lemma add_term_Some:
  "add_term n s ps = Some ps' \<longleftrightarrow>
     name_len ps + n \<le> MAX_NAME_TERM_LEN \<and>
     ps' = ps\<lparr>name_len := name_len ps + n, name_term := name_term ps @ s\<rparr>"
  by (auto simp: add_term_def Let_def)

lemma paren_Some:
  "paren nd n s ps = Some ps' \<longleftrightarrow>
     (if sn_string_term nd
      then name_len ps + n \<le> MAX_NAME_TERM_LEN \<and>
           ps' = ps\<lparr>name_len := name_len ps + n, name_term := name_term ps @ s\<rparr>
      else ps' = ps)"
  by (auto simp: paren_def add_term_Some)

lemma leaf_visit_text:
  "leaf_visit a nd ps = Some ps' \<Longrightarrow>
   name_term ps' = name_term ps @ (if sn_type nd = ST_STRING then term_text nd else []) \<and>
   name_len ps' = name_len ps + (if sn_type nd = ST_STRING then sn_str_len nd else 0) \<and>
   (name_len ps \<le> MAX_NAME_TERM_LEN \<longrightarrow> name_len ps' \<le> MAX_NAME_TERM_LEN)"
  by (cases "sn_type nd")
     (auto simp: leaf_visit_def Let_def strncat_def term_text_def split: if_splits)

lemma sem_text:
  "sem h t ps = Some ps' \<Longrightarrow>
   name_term ps' = name_term ps @ render h t \<and>
   name_len ps' = name_len ps + rlen h t \<and>
   (name_len ps \<le> MAX_NAME_TERM_LEN \<longrightarrow> name_len ps' \<le> MAX_NAME_TERM_LEN)"
proof (induction t arbitrary: ps ps')
  case (PLeaf a ps ps')
  then obtain nd where nd: "h a = Some nd" and lv: "leaf_visit a nd ps = Some ps'"
    by (auto split: option.splits)
  from leaf_visit_text[OF lv] nd show ?case by (auto split: if_splits)
next
  case (POp a l r ps ps')
  from POp.prems obtain nd ps1 ps2 ps3 ps4 where nd: "h a = Some nd"
    and s1: "paren nd 1 ''('' ps = Some ps1" and s2: "sem h l ps1 = Some ps2"
    and s3: "paren nd (oper_width (sn_type nd)) (oper (sn_type nd)) ps2 = Some ps3"
    and s4: "sem h r ps3 = Some ps4" and s5: "paren nd 1 '')'' ps4 = Some ps'"
    by (auto split: option.splits simp: bind_eq_Some_conv)
  note l = POp.IH(1)[OF s2] and r = POp.IH(2)[OF s4]
  show ?case
  proof (cases "sn_string_term nd")
    case True
    with s1 s3 s5 l r nd show ?thesis by (simp add: paren_Some)
  next
    case False
    with s1 s3 s5 l r nd show ?thesis by (auto simp add: paren_Some)
  qed
qed

lemma sem_overflow:
  assumes "name_len ps \<le> MAX_NAME_TERM_LEN" "MAX_NAME_TERM_LEN < name_len ps + rlen h t"
  shows "sem h t ps = None"
proof (cases "sem h t ps")
  case None
  then show ?thesis .
next
  case (Some ps')
  from sem_text[OF this] assms show ?thesis by simp
qed

lemma leaf_visit_known:
  "known_leaf (sn_type nd) \<Longrightarrow>
   name_len ps + (if sn_type nd = ST_STRING then sn_str_len nd else 0) \<le> MAX_NAME_TERM_LEN \<Longrightarrow>
   \<exists>ps'. leaf_visit a nd ps = Some ps'"
  by (cases "sn_type nd") (auto simp: leaf_visit_def Let_def known_leaf_def)

lemma sem_fits:
  "tree_at h par t \<Longrightarrow> leaves_known h t \<Longrightarrow> name_len ps + rlen h t \<le> MAX_NAME_TERM_LEN \<Longrightarrow>
   \<exists>ps'. sem h t ps = Some ps'"
proof (induction t arbitrary: par ps)
  case (PLeaf a par ps)
  then show ?case using leaf_visit_known[of _ ps a] by (auto split: option.splits if_splits)
next
  case (POp a l r par ps)
  from POp.prems(1) obtain nd where nd: "h a = Some nd"
    and tl: "tree_at h (Some a) l" and tr: "tree_at h (Some a) r"
    by (auto split: option.splits)
  from POp.prems(2) have kl: "leaves_known h l" and kr: "leaves_known h r" by simp_all
  show ?case
  proof (cases "sn_string_term nd")
    case True
    with POp.prems(3) nd have fit: "name_len ps + (1 + rlen h l + oper_width (sn_type nd) + rlen h r + 1) \<le> MAX_NAME_TERM_LEN"
      by simp
    let ?ps1 = "ps\<lparr>name_len := name_len ps + 1, name_term := name_term ps @ ''(''\<rparr>"
    have s1: "paren nd 1 ''('' ps = Some ?ps1" using True fit by (simp add: paren_Some)
    have "name_len ?ps1 + rlen h l \<le> MAX_NAME_TERM_LEN" using fit by simp
    from POp.IH(1)[OF tl kl this] obtain ps2 where s2: "sem h l ?ps1 = Some ps2" by blast
    from sem_text[OF s2] have n2: "name_len ps2 = name_len ps + 1 + rlen h l" by simp
    let ?ps3 = "ps2\<lparr>name_len := name_len ps2 + oper_width (sn_type nd),
                     name_term := name_term ps2 @ oper (sn_type nd)\<rparr>"
    have s3: "paren nd (oper_width (sn_type nd)) (oper (sn_type nd)) ps2 = Some ?ps3"
      using True fit n2 by (simp add: paren_Some)
    have "name_len ?ps3 + rlen h r \<le> MAX_NAME_TERM_LEN" using fit n2 by simp
    from POp.IH(2)[OF tr kr this] obtain ps4 where s4: "sem h r ?ps3 = Some ps4" by blast
    from sem_text[OF s4] n2 have n4: "name_len ps4 = name_len ps + 1 + rlen h l + oper_width (sn_type nd) + rlen h r"
      by simp
    have "\<exists>ps'. paren nd 1 '')'' ps4 = Some ps'" using True fit n4 by (simp add: paren_Some)
    with nd s1 s2 s3 s4 show ?thesis by simp
  next
    case False
    with POp.prems(3) nd have fit: "name_len ps + (rlen h l + rlen h r) \<le> MAX_NAME_TERM_LEN"
      by simp
    then have "name_len ps + rlen h l \<le> MAX_NAME_TERM_LEN" by simp
    from POp.IH(1)[OF tl kl this] obtain ps2 where s2: "sem h l ps = Some ps2" by blast
    from sem_text[OF s2] have n2: "name_len ps2 = name_len ps + rlen h l" by simp
    with fit have "name_len ps2 + rlen h r \<le> MAX_NAME_TERM_LEN" by simp
    from POp.IH(2)[OF tr kr this] obtain ps4 where s4: "sem h r ps2 = Some ps4" by blast
    from nd False s2 s4 show ?thesis by (simp add: paren_def)
  qed
qed

lemma oper_keyword: "is_operator t \<Longrightarrow> oper t = keyword t"
  by (auto simp: is_operator_def oper_def keyword_def)

lemma render_infix:
  "tree_at h par t \<Longrightarrow> all_string_term h t \<Longrightarrow> render h t = infix_render h t"
  by (induction t arbitrary: par) (auto split: option.splits simp: oper_keyword)

subsection \<open>The rendered text\<close>

text \<open>
  Claim C6. For every search tree, held in the store as the parser delivers it (visited
  flags clear), whose operator nodes all have \<^verbatim>\<open>string_term\<close> set, the compiled search text is the fully
  parenthesized infix rendering of the tree: whenever the walk completes its text is
  \<open>infix_render h t\<close>, and the walk does complete when every leaf has a type the code
  knows and the counted length fits the buffer.
\<close>

theorem search_text_is_infix_rendering:
  assumes "tree_at h None t" and "distinct (addrs t)" and "all_string_term h t"
  shows "(leaves_known h t \<and> rlen h t \<le> MAX_NAME_TERM_LEN \<longrightarrow>
          (\<exists>ps. walk (Some (root t)) h params0 = Some (WDone (mark t h) ps) \<and>
                name_term ps = infix_render h t)) \<and>
         (\<forall>h' ps. walk (Some (root t)) h params0 = Some (WDone h' ps) \<longrightarrow>
                name_term ps = infix_render h t)"
proof (intro conjI impI allI)
  assume a: "leaves_known h t \<and> rlen h t \<le> MAX_NAME_TERM_LEN"
  then have "name_len params0 + rlen h t \<le> MAX_NAME_TERM_LEN" by (simp add: params0_def)
  from sem_fits[OF assms(1) _ this] a obtain ps where ps: "sem h t params0 = Some ps" by blast
  from sem_text[OF ps] have "name_term ps = render h t" by (simp add: params0_def)
  with render_infix[OF assms(1,3)] have "name_term ps = infix_render h t" by simp
  moreover from walk_root(1)[OF assms(1,2), of params0] ps
  have "walk (Some (root t)) h params0 = Some (WDone (mark t h) ps)" by simp
  ultimately show "\<exists>ps. walk (Some (root t)) h params0 = Some (WDone (mark t h) ps) \<and>
                name_term ps = infix_render h t" by blast
next
  fix h' ps assume w: "walk (Some (root t)) h params0 = Some (WDone h' ps)"
  show "name_term ps = infix_render h t"
  proof (cases "sem h t params0")
    case None
    from walk_root(2)[OF assms(1,2) None] w show ?thesis by auto
  next
    case (Some ps')
    with walk_root(1)[OF assms(1,2), of params0] w have "ps = ps'" by simp
    with sem_text[OF Some] have "name_term ps = render h t" by (simp add: params0_def)
    with render_infix[OF assms(1,3)] show ?thesis by simp
  qed
qed

text \<open>The tree of \<^verbatim>\<open>(A AND B) OR (C NOT D)\<close>.\<close>

theorem search_text_is_infix_rendering_witness:
  "tree_at ex_tree_heap None ex_tree \<and> distinct (addrs ex_tree) \<and>
   all_string_term ex_tree_heap ex_tree \<and> leaves_known ex_tree_heap ex_tree \<and>
   rlen ex_tree_heap ex_tree \<le> MAX_NAME_TERM_LEN \<and>
   infix_render ex_tree_heap ex_tree = ''((A AND B) OR (C NOT D))'' \<and>
   (\<exists>ps. walk (Some (root ex_tree)) ex_tree_heap params0 =
            Some (WDone (mark ex_tree ex_tree_heap) ps) \<and>
         name_term ps = infix_render ex_tree_heap ex_tree)"
proof -
  have a: "tree_at ex_tree_heap None ex_tree"
    by (simp add: ex2_defs is_operator_def)
  have b: "distinct (addrs ex_tree)" by (simp add: ex_tree_def)
  have c: "all_string_term ex_tree_heap ex_tree" by (simp add: ex2_defs)
  have d: "leaves_known ex_tree_heap ex_tree" by (simp add: ex2_defs known_leaf_def)
  have e: "rlen ex_tree_heap ex_tree \<le> MAX_NAME_TERM_LEN"
    by (simp add: ex2_defs oper_width_def MAX_NAME_TERM_LEN_def)
  have f: "infix_render ex_tree_heap ex_tree = ''((A AND B) OR (C NOT D))''"
    by (simp add: ex2_defs keyword_def term_text_def)
  from search_text_is_infix_rendering[OF a b c] a b c d e f show ?thesis by simp
qed

subsection \<open>The bound of the search text\<close>

text \<open>
  Claim C4 says that the search fails when the length of the search text would reach
  or exceed \<open>MAX_NAME_TERM_LEN\<close>. The check is \<^verbatim>\<open>name_len < sizeof name_term\<close>, and
  the buffer has \<open>MAX_NAME_TERM_LEN + 1\<close> bytes: a text of exactly
  \<open>MAX_NAME_TERM_LEN\<close> characters is accepted and the search succeeds.
\<close>

theorem search_text_at_capacity_accepted:
  "rlen (ex_term_heap (replicate 1024 CHR ''a'')) (PLeaf 0) = MAX_NAME_TERM_LEN \<and>
   (\<exists>h ps. walk (Some 0) (ex_term_heap (replicate 1024 CHR ''a'')) params0 = Some (WDone h ps) \<and>
      name_term ps = replicate 1024 CHR ''a'' \<and> length (name_term ps) = MAX_NAME_TERM_LEN) \<and>
   (\<exists>r. db_search_files ex_env ex_db0 (ex_term_heap (replicate 1024 CHR ''a'')) (Some 0) [] 10 = Some r \<and>
      so_ret r = 1)"
proof -
  let ?h = "ex_term_heap (replicate 1024 CHR ''a'')"
  have w: "walk (Some 0) ?h params0 =
      Some (WDone ?h (params0\<lparr>name_len := 1024, name_term := replicate 1024 CHR ''a''\<rparr>))"
    by (simp add: ex2_defs walk_defs takeWhile_replicate)
  have r: "rlen ?h (PLeaf 0) = MAX_NAME_TERM_LEN"
    by (simp add: ex2_defs MAX_NAME_TERM_LEN_def)
  have s: "\<exists>r. db_search_files ex_env ex_db0 ?h (Some 0) [] 10 = Some r \<and> so_ret r = 1"
    unfolding db_search_files_def w
    by (simp add: ex_defs query_defs)
  from w r s show ?thesis by (simp add: MAX_NAME_TERM_LEN_def)
qed

text \<open>
  Claim C4, amended. If the length the code counts for the search text of a tree
  (which is at least the length of the rendered text) exceeds \<open>MAX_NAME_TERM_LEN\<close>,
  the walk fails and \<^verbatim>\<open>db_search_files\<close> fails as a whole: it returns 0, the output
  buffer and the count are as they were, and no search text is produced.
\<close>

theorem search_text_overflow_fails:
  assumes "tree_at h None t" and "distinct (addrs t)" and "MAX_NAME_TERM_LEN < rlen h t"
  shows "\<exists>h'. walk (Some (root t)) h params0 = Some (WFailed h') \<and>
     db_search_files e d h (Some (root t)) buf count =
       Some \<lparr>so_ret = 0, so_heap = h', so_buf = buf, so_count = count, so_db = d\<rparr>"
proof -
  have "sem h t params0 = None"
    using sem_overflow[of params0 h t] assms(3) by (simp add: params0_def)
  from walk_root(2)[OF assms(1,2) this] obtain h' where
    "walk (Some (root t)) h params0 = Some (WFailed h')" by blast
  then show ?thesis by (simp add: db_search_files_def)
qed

text \<open>A single term of 1025 characters.\<close>

theorem search_text_overflow_fails_witness:
  "tree_at (ex_term_heap (replicate 1025 CHR ''a'')) None (PLeaf 0) \<and>
   distinct (addrs (PLeaf 0)) \<and>
   MAX_NAME_TERM_LEN < rlen (ex_term_heap (replicate 1025 CHR ''a'')) (PLeaf 0) \<and>
   (\<exists>h'. walk (Some (root (PLeaf 0))) (ex_term_heap (replicate 1025 CHR ''a'')) params0 = Some (WFailed h') \<and>
      db_search_files ex_env ex_db2 (ex_term_heap (replicate 1025 CHR ''a'')) (Some (root (PLeaf 0))) [] 10 =
        Some \<lparr>so_ret = 0, so_heap = h', so_buf = [], so_count = 10, so_db = ex_db2\<rparr>)"
proof -
  let ?h = "ex_term_heap (replicate 1025 CHR ''a'')"
  have a: "tree_at ?h None (PLeaf 0)" by (simp add: ex2_defs is_operator_def)
  have b: "distinct (addrs (PLeaf 0))" by simp
  have c: "MAX_NAME_TERM_LEN < rlen ?h (PLeaf 0)" by (simp add: ex2_defs MAX_NAME_TERM_LEN_def)
  from search_text_overflow_fails[OF a b c, of ex_env ex_db2 "[]" 10] a b c show ?thesis by simp
qed

subsection \<open>Numeric filters with value 0\<close>








subsection \<open>A second walk of the same tree\<close>

text \<open>
  Claim C10 says that a second call on the same tree object does not render the terms
  again and gives a different search text. A tree that is a single string term has no
  flags to set: the second call renders the term again, to the same text.
\<close>

theorem second_walk_of_single_term_repeats:
  "walk (Some 0) (ex_term_heap ''song'') params0 =
     Some (WDone (ex_term_heap ''song'') (params0\<lparr>name_len := 4, name_term := ''song''\<rparr>)) \<and>
   walk_twice (Some 0) (ex_term_heap ''song'') = Some (''song'', ''song'')"
proof -
  have w: "walk (Some 0) (ex_term_heap ''song'') params0 =
     Some (WDone (ex_term_heap ''song'') (params0\<lparr>name_len := 4, name_term := ''song''\<rparr>))"
    by (simp add: ex2_defs walk_defs)
  then have "walk_twice (Some 0) (ex_term_heap ''song'') = Some (''song'', ''song'')"
    by (simp add: walk_twice_def)
  with w show ?thesis by simp
qed

text \<open>
  Claim C10, amended. For a tree whose root is an operator node, after a completed
  walk every operator node of the tree has both visited flags set, and nothing clears
  them: a second call on the same tree object visits the root once and ends, renders no
  term and records no filter; its search text is a lone closing parenthesis when the
  root has \<^verbatim>\<open>string_term\<close> set (which differs from the text of the first call) and
  empty otherwise.
\<close>

theorem second_walk_degenerate:
  assumes "tree_at h None (POp a l r)" and "distinct (addrs (POp a l r))"
    and "h a = Some nd"
    and "walk (Some a) h params0 = Some (WDone h1 ps1)"
  shows "list_all (\<lambda>x. case h1 x of None \<Rightarrow> False
                        | Some n \<Rightarrow> sn_left_visited n \<and> sn_right_visited n) (op_addrs (POp a l r)) \<and>
     walk (Some a) h1 params0 =
       Some (WDone h1 (if sn_string_term nd
                       then params0\<lparr>name_len := 1, name_term := '')''\<rparr> else params0)) \<and>
     walk_twice (Some a) h = Some (name_term ps1, if sn_string_term nd then '')'' else []) \<and>
     (sn_string_term nd \<longrightarrow> name_term ps1 \<noteq> '')'')"
proof -
  let ?t = "POp a l r"
  from assms(1,3) have op: "is_operator (sn_type nd)" and par: "sn_parent nd = None" by simp_all
  obtain ps' where sm: "sem h ?t params0 = Some ps'"
    using walk_root(2)[OF assms(1,2), of params0] assms(4) by (cases "sem h ?t params0") auto
  with walk_root(1)[OF assms(1,2), of params0] assms(4)
  have h1: "h1 = mark ?t h" and ps1: "ps1 = ps'" by simp_all
  have flags: "list_all (\<lambda>x. case h1 x of None \<Rightarrow> False
                        | Some n \<Rightarrow> sn_left_visited n \<and> sn_right_visited n) (op_addrs ?t)"
    unfolding list_all_iff
  proof
    fix x assume x: "x \<in> set (op_addrs ?t)"
    from tree_at_ops[OF assms(1) this] obtain n where "h x = Some n" by blast
    with x show "case h1 x of None \<Rightarrow> False | Some n \<Rightarrow> sn_left_visited n \<and> sn_right_visited n"
      unfolding h1 mark_def by simp
  qed
  let ?nd2 = "nd\<lparr>sn_left_visited := True, sn_right_visited := True\<rparr>"
  have h1a: "h1 a = Some ?nd2" unfolding h1 using assms(3) by (simp add: mark_def)
  have again: "walk (Some a) h1 params0 =
       Some (WDone h1 (if sn_string_term nd
                       then params0\<lparr>name_len := 1, name_term := '')''\<rparr> else params0))"
    using walk_close[of h1 a ?nd2 params0, OF h1a] op par
    by (simp add: paren_def add_term_def params0_def MAX_NAME_TERM_LEN_def)
  have twice: "walk_twice (Some a) h = Some (name_term ps1, if sn_string_term nd then '')'' else [])"
    unfolding walk_twice_def assms(4) using again by (simp add: params0_def)
  have diff: "sn_string_term nd \<longrightarrow> name_term ps1 \<noteq> '')''"
  proof
    assume st: "sn_string_term nd"
    from sem_text[OF sm] have "name_term ps' = render h ?t" by (simp add: params0_def)
    with st assms(3) have "name_term ps1 = ''('' @ render h l @ oper (sn_type nd) @ render h r @ '')''"
      by (simp add: ps1)
    then show "name_term ps1 \<noteq> '')''" by simp
  qed
  from flags again twice diff show ?thesis by blast
qed

text \<open>The example tree, walked twice.\<close>

theorem second_walk_degenerate_witness:
  "tree_at ex_tree_heap None (POp 0 (POp 1 (PLeaf 2) (PLeaf 3)) (POp 4 (PLeaf 5) (PLeaf 6))) \<and>
   distinct (addrs (POp 0 (POp 1 (PLeaf 2) (PLeaf 3)) (POp 4 (PLeaf 5) (PLeaf 6)))) \<and>
   ex_tree_heap 0 = Some (ex_op ST_OR None True 1 4) \<and>
   walk (Some 0) ex_tree_heap params0 = Some (WDone (mark ex_tree ex_tree_heap) ex_tree_params) \<and>
   name_term ex_tree_params = ''((A AND B) OR (C NOT D))'' \<and>
   walk (Some 0) (mark ex_tree ex_tree_heap) params0 =
     Some (WDone (mark ex_tree ex_tree_heap) (params0\<lparr>name_len := 1, name_term := '')''\<rparr>)) \<and>
   walk_twice (Some 0) ex_tree_heap = Some (''((A AND B) OR (C NOT D))'', '')'') \<and>
   name_term ex_tree_params \<noteq> '')''"
proof -
  let ?t = "POp 0 (POp 1 (PLeaf 2) (PLeaf 3)) (POp 4 (PLeaf 5) (PLeaf 6))"
  have a: "tree_at ex_tree_heap None ?t" by (simp add: ex2_defs is_operator_def)
  have b: "distinct (addrs ?t)" by simp
  have c: "ex_tree_heap 0 = Some (ex_op ST_OR None True 1 4)" by (simp add: ex_tree_heap_def)
  have s: "sem ex_tree_heap ?t params0 = Some ex_tree_params"
    by (simp add: ex2_defs sem_defs ex_tree_params_def)
  have w: "walk (Some 0) ex_tree_heap params0 = Some (WDone (mark ex_tree ex_tree_heap) ex_tree_params)"
    using walk_root(1)[OF a b, of params0] s by (simp add: ex_tree_def)
  have st: "sn_string_term (ex_op ST_OR None True 1 4)" by (simp add: ex_op_def)
  have n: "name_term ex_tree_params = ''((A AND B) OR (C NOT D))''"
    by (simp add: ex_tree_params_def)
  note r = second_walk_degenerate[OF a b c w]
  from r st have r2: "walk (Some 0) (mark ex_tree ex_tree_heap) params0 =
     Some (WDone (mark ex_tree ex_tree_heap) (params0\<lparr>name_len := 1, name_term := '')''\<rparr>))"
    by simp
  from r st n have r3: "walk_twice (Some 0) ex_tree_heap = Some (''((A AND B) OR (C NOT D))'', '')'')"
    by simp
  from r st have r4: "name_term ex_tree_params \<noteq> '')''" by blast
  from a b c w n r2 r3 r4 show ?thesis by blast
qed

end
